theory Spec2Isabelle
  imports Main
begin

section \<open>The content classifier of \<open>generate\<close>\<close>

text \<open>
  \<open>generate\<close> (src/index.ts, line 71) picks the URL to navigate to with
  \<^verbatim>\<open>/^(https?|file|data):/i.test(html) ? html : `data:text/html,${html}`\<close>.
  The regular expression is embedded as a value of a small regex datatype and run by a
  backtracking matcher, which returns the remainders of the input after every match
  that starts at its first character (the pattern is anchored by \<open>^\<close>).
  The flag \<open>i\<close> compares characters after canonicalisation; for a pattern of ASCII
  letters only the two cases of a letter are identified.
\<close>

datatype regex = Eps | Chr char | Seq regex regex | Alt regex regex | Opt regex

definition canonicalize :: "char \<Rightarrow> char" where
  "canonicalize c =
     (let n = (of_char c :: nat) in if 97 \<le> n \<and> n \<le> 122 then char_of (n - 32) else c)"

fun matchFrom :: "regex \<Rightarrow> string \<Rightarrow> string list" where
  "matchFrom Eps s = [s]"
| "matchFrom (Chr c) s =
     (case s of [] \<Rightarrow> [] | x # xs \<Rightarrow> if canonicalize x = canonicalize c then [xs] else [])"
| "matchFrom (Seq a b) s = concat (map (matchFrom b) (matchFrom a s))"
| "matchFrom (Alt a b) s = matchFrom a s @ matchFrom b s"
| "matchFrom (Opt a) s = matchFrom a s @ [s]"

definition test :: "regex \<Rightarrow> string \<Rightarrow> bool" where
  "test r s = (matchFrom r s \<noteq> [])"

fun word :: "string \<Rightarrow> regex" where
  "word [] = Eps"
| "word (c # cs) = Seq (Chr c) (word cs)"

definition schemePattern :: regex where
  "schemePattern =
     Seq (Alt (Seq (word ''http'') (Opt (Chr CHR ''s''))) (Alt (word ''file'') (word ''data'')))
         (Chr CHR '':'')"

definition navigationUrl :: "string \<Rightarrow> string" where
  "navigationUrl html = (if test schemePattern html then html else ''data:text/html,'' @ html)"

text \<open>
  The specification's wording of the same classification: the content starts with one of
  the prefixes \<open>http:\<close>, \<open>https:\<close>, \<open>file:\<close>, \<open>data:\<close>, letter case ignored.
\<close>

definition startsWithIgnoreCase :: "string \<Rightarrow> string \<Rightarrow> bool" where
  "startsWithIgnoreCase p s = (map canonicalize (take (length p) s) = map canonicalize p)"

definition hasSchemePrefix :: "string \<Rightarrow> bool" where
  "hasSchemePrefix s =
     (startsWithIgnoreCase ''http:'' s \<or> startsWithIgnoreCase ''https:'' s \<or>
      startsWithIgnoreCase ''file:'' s \<or> startsWithIgnoreCase ''data:'' s)"

section \<open>Options objects, the heap and the collaborators\<close>

text \<open>
  \<open>CreateOptions\<close> objects live on a heap, a list of objects addressed by position,
  because \<open>create\<close> copies the caller's object (\<open>Object.assign({}, options)\<close>) and
  mutates the copy: \<open>_canceled\<close> (field \<open>canceled\<close> here) and \<open>port\<close>.
  An optional field is an \<open>option\<close>; handlers, cookies, print options and the completion
  trigger are opaque to \<open>create\<close>, which only tests their presence and passes them on.
  The timeout is a whole number of milliseconds.
\<close>

record CreateOptions =
  host :: "string option"
  port :: "int option"
  chromePath :: "string option"
  chromeFlags :: "string list option"
  timeout :: "int option"
  clearCache :: "bool option"
  runtimeConsoleHandler :: "string option"
  runtimeExceptionHandler :: "string option"
  cookies :: "string list option"
  completionTrigger :: "string option"
  printOptions :: "string option"
  canceled :: "bool option"

definition emptyOptions :: CreateOptions where
  "emptyOptions = \<lparr>host = None, port = None, chromePath = None, chromeFlags = None,
     timeout = None, clearCache = None, runtimeConsoleHandler = None,
     runtimeExceptionHandler = None, cookies = None, completionTrigger = None,
     printOptions = None, canceled = None\<rparr>"

definition DEFAULT_CHROME_FLAGS :: "string list" where
  "DEFAULT_CHROME_FLAGS = [''--disable-gpu'', ''--headless'', ''--hide-scrollbars'']"

text \<open>The outcome of a completion trigger's \<open>wait\<close>, as far as \<open>afterNavigate\<close> reads it.\<close>

record waitResult =
  exceptionDetails :: bool
  resultValue :: string

text \<open>
  The calls \<open>create\<close> makes to its collaborators (chrome-launcher, chrome-remote-interface,
  the completion trigger), with the arguments that matter here.
\<close>

datatype call =
    Launch "int option" "string option" "string list"
  | New "string option" "int option"
  | Connect string
  | ClearBrowserCache
  | PageEnable
  | RuntimeEnable
  | ConsoleAPICalled string
  | ExceptionThrown string
  | SetCookies "string list"
  | Navigate string
  | LoadEventFired
  | Wait
  | PrintToPDF "string option"
  | ClientClose
  | Close string
  | Kill

text \<open>
  The three kinds of \<open>Error\<close> a run can end with, named by where they are thrown:
  by \<open>throwIfCanceled\<close>, by \<open>afterNavigate\<close> for a failed evaluation, or by a collaborator
  whose promise rejects. \<open>message\<close> is the text the JavaScript \<open>Error\<close> carries.
\<close>

datatype error = Timeout | Evaluation string | External call string

fun message :: "error \<Rightarrow> string" where
  "message Timeout = ''HtmlPdf.create() timed out.''"
| "message (Evaluation v) = v"
| "message (External c m) = m"

text \<open>
  What is observed of a run: a call being issued, an awaited call settling (with the time
  in milliseconds since \<open>create\<close> was entered), and \<open>throwIfCanceled\<close> finding the flag set.
\<close>

datatype event = Issued call | Settled call nat | GuardFailed

text \<open>
  A reply is what an awaited call does in this run: it rejects with a message or fulfils
  with a value, after some milliseconds. Every call site runs at most once in a run, so
  one reply for each is the whole behaviour of the collaborators.
\<close>

type_synonym 'a reply = "(string + 'a) \<times> nat"

record env =
  launch :: "int reply"
  cdpNew :: "string reply"
  cdp :: "unit reply"
  clearBrowserCache :: "unit reply"
  pageEnable :: "unit reply"
  runtimeEnable :: "unit reply"
  setCookies :: "unit reply"
  navigate :: "unit reply"
  loadEventFired :: "unit reply"
  wait :: "waitResult option reply"
  printToPDF :: "string reply"
  cdpClose :: "unit reply"
  kill :: "unit reply"

section \<open>Asynchronous execution\<close>

text \<open>
  The state of a run: the heap, the time since \<open>create\<close> was entered, the pending timer
  (its delay and the object its callback writes to) and the events so far.
\<close>

record state =
  heap :: "CreateOptions list"
  clock :: nat
  timer :: "(int \<times> nat) option"
  trace :: "event list"

type_synonym 'a prog = "state \<Rightarrow> (error + 'a) \<times> state"

definition deref :: "CreateOptions list \<Rightarrow> nat \<Rightarrow> CreateOptions" where
  "deref h a = (if a < length h then h ! a else emptyOptions)"

definition assign :: "nat \<Rightarrow> (CreateOptions \<Rightarrow> CreateOptions) \<Rightarrow> state \<Rightarrow> state" where
  "assign a f s = s\<lparr>heap := (heap s)[a := f (deref (heap s) a)]\<rparr>"

definition emit :: "event \<Rightarrow> state \<Rightarrow> state" where
  "emit e s = s\<lparr>trace := trace s @ [e]\<rparr>"

definition setTimeout :: "nat \<Rightarrow> int \<Rightarrow> state \<Rightarrow> state" where
  "setTimeout a T s = s\<lparr>timer := Some (T, a)\<rparr>"

text \<open>
  \<open>tick d\<close>: the event loop runs for \<open>d\<close> milliseconds while an awaited call is pending.
  The one-shot timer callback of \<open>create\<close> (\<open>myOptions._canceled = true\<close>) has run by the
  end of it when more than the delay has elapsed since the timer was set at time 0.
\<close>

definition tick :: "nat \<Rightarrow> state \<Rightarrow> state" where
  "tick d s =
     (let s' = s\<lparr>clock := clock s + d\<rparr> in
      case timer s' of
        None \<Rightarrow> s'
      | Some (T, a) \<Rightarrow>
          if T < int (clock s')
          then (assign a (\<lambda>opts. opts\<lparr>canceled := Some True\<rparr>) s')\<lparr>timer := None\<rparr>
          else s')"

definition succeed :: "'a \<Rightarrow> 'a prog" where
  "succeed v = (\<lambda>s. (Inr v, s))"

definition throw :: "error \<Rightarrow> 'a prog" where
  "throw e = (\<lambda>s. (Inl e, s))"

definition andThen :: "'a prog \<Rightarrow> ('a \<Rightarrow> 'b prog) \<Rightarrow> 'b prog" where
  "andThen m f = (\<lambda>s. case m s of (Inl e, s') \<Rightarrow> (Inl e, s') | (Inr v, s') \<Rightarrow> f v s')"

text \<open>
  \<open>try { m } finally { fin }\<close>: \<open>fin\<close> runs however \<open>m\<close> ends; when \<open>fin\<close> throws, its
  error replaces the outcome of \<open>m\<close>.
\<close>

definition tryFinally :: "'a prog \<Rightarrow> unit prog \<Rightarrow> 'a prog" where
  "tryFinally m fin =
     (\<lambda>s. case m s of (r, s') \<Rightarrow>
        (case fin s' of (Inl e, s'') \<Rightarrow> (Inl e, s'') | (Inr u, s'') \<Rightarrow> (r, s'')))"

definition withOptions :: "nat \<Rightarrow> (CreateOptions \<Rightarrow> 'a prog) \<Rightarrow> 'a prog" where
  "withOptions a f = (\<lambda>s. f (deref (heap s) a) s)"

text \<open>A call that is not awaited: it is issued and the run goes on.\<close>

definition invoke :: "call \<Rightarrow> unit prog" where
  "invoke c = (\<lambda>s. (Inr (), emit (Issued c) s))"

text \<open>\<open>await c(...)\<close>: the call is issued, the run is suspended until it settles.\<close>

definition await :: "call \<Rightarrow> 'a reply \<Rightarrow> 'a prog" where
  "await c r =
     (\<lambda>s. let s' = tick (snd r) (emit (Issued c) s);
               s'' = emit (Settled c (clock s')) s'
           in case fst r of Inl m \<Rightarrow> (Inl (External c m), s'') | Inr v \<Rightarrow> (Inr v, s''))"

text \<open>
  \<open>await Promise.all([c1(...), c2(...)])\<close>: both calls are issued, in this order. The
  promise rejects as soon as one of them rejects, and fulfils when both have fulfilled;
  the call that needs less time settles first (the first one when they need the same).
\<close>

definition awaitAll :: "call \<Rightarrow> unit reply \<Rightarrow> call \<Rightarrow> unit reply \<Rightarrow> unit prog" where
  "awaitAll c1 r1 c2 r2 =
     (\<lambda>s. let s0 = emit (Issued c2) (emit (Issued c1) s);
               (ca, ra, cb, rb) = (if snd r1 \<le> snd r2 then (c1, r1, c2, r2) else (c2, r2, c1, r1));
               sa = tick (snd ra) s0;
               sa' = emit (Settled ca (clock sa)) sa
           in case fst ra of
                Inl m \<Rightarrow> (Inl (External ca m), sa')
              | Inr u \<Rightarrow>
                  (let sb = tick (snd rb - snd ra) sa';
                       sb' = emit (Settled cb (clock sb)) sb
                   in case fst rb of
                        Inl m \<Rightarrow> (Inl (External cb m), sb')
                      | Inr u' \<Rightarrow> (Inr (), sb')))"

section \<open>The functions of src/index.ts\<close>

definition throwIfCanceled :: "nat \<Rightarrow> unit prog" where
  "throwIfCanceled options =
     (\<lambda>s. if canceled (deref (heap s) options) = Some True
          then (Inl Timeout, emit GuardFailed s)
          else (Inr (), s))"

definition launchChrome :: "nat \<Rightarrow> env \<Rightarrow> int prog" where
  "launchChrome options env =
     withOptions options (\<lambda>opts.
       andThen
         (await (Launch (port opts) (chromePath opts)
                   (case chromeFlags opts of None \<Rightarrow> DEFAULT_CHROME_FLAGS | Some fl \<Rightarrow> fl))
                (launch env))
         (\<lambda>chrome s. (Inr chrome, assign options (\<lambda>opts. opts\<lparr>port := Some chrome\<rparr>) s)))"

definition beforeNavigate :: "nat \<Rightarrow> env \<Rightarrow> unit prog" where
  "beforeNavigate options env =
     andThen (throwIfCanceled options) (\<lambda>_.
     andThen (withOptions options (\<lambda>opts.
                if clearCache opts = Some True
                then await ClearBrowserCache (clearBrowserCache env)
                else succeed ())) (\<lambda>_.
     andThen (awaitAll PageEnable (pageEnable env) RuntimeEnable (runtimeEnable env)) (\<lambda>_.
     andThen (withOptions options (\<lambda>opts.
                case runtimeConsoleHandler opts of
                  Some handler \<Rightarrow> andThen (throwIfCanceled options) (\<lambda>_. invoke (ConsoleAPICalled handler))
                | None \<Rightarrow> succeed ())) (\<lambda>_.
     andThen (withOptions options (\<lambda>opts.
                case runtimeExceptionHandler opts of
                  Some handler \<Rightarrow> andThen (throwIfCanceled options) (\<lambda>_. invoke (ExceptionThrown handler))
                | None \<Rightarrow> succeed ())) (\<lambda>_.
     andThen (withOptions options (\<lambda>opts.
                case cookies opts of
                  Some cs \<Rightarrow> andThen (throwIfCanceled options) (\<lambda>_.
                              await (SetCookies cs) (setCookies env))
                | None \<Rightarrow> succeed ())) (\<lambda>_.
     throwIfCanceled options))))))"

definition afterNavigate :: "nat \<Rightarrow> env \<Rightarrow> unit prog" where
  "afterNavigate options env =
     andThen (withOptions options (\<lambda>opts.
                case completionTrigger opts of
                  Some tr \<Rightarrow>
                    andThen (throwIfCanceled options) (\<lambda>_.
                    andThen (await Wait (wait env)) (\<lambda>waitResult.
                      case waitResult of
                        Some w \<Rightarrow>
                          if exceptionDetails w
                          then andThen (throwIfCanceled options) (\<lambda>_.
                                 throw (Evaluation (resultValue w)))
                          else succeed ()
                      | None \<Rightarrow> succeed ()))
                | None \<Rightarrow> succeed ())) (\<lambda>_.
     throwIfCanceled options)"

definition generate :: "string \<Rightarrow> nat \<Rightarrow> string \<Rightarrow> env \<Rightarrow> string prog" where
  "generate html options tab env =
     andThen (throwIfCanceled options) (\<lambda>_.
     andThen (await (Connect tab) (cdp env)) (\<lambda>client.
       tryFinally
         (andThen (beforeNavigate options env) (\<lambda>_.
          andThen (awaitAll (Navigate (navigationUrl html)) (navigate env)
                            LoadEventFired (loadEventFired env)) (\<lambda>_.
          andThen (afterNavigate options env) (\<lambda>_.
          andThen (withOptions options (\<lambda>opts.
                     await (PrintToPDF (printOptions opts)) (printToPDF env))) (\<lambda>pdf.
          andThen (throwIfCanceled options) (\<lambda>_.
          succeed pdf))))))
         (invoke ClientClose)))"

text \<open>
  \<open>create\<close>, lines 37 to 54: everything after the copy of the options is made and the
  timer is set. \<open>chrome\<close> is the launched process, if there is one.
\<close>

definition truthyString :: "string option \<Rightarrow> bool" where
  "truthyString x = (case x of None \<Rightarrow> False | Some v \<Rightarrow> v \<noteq> [])"

definition truthyNumber :: "int option \<Rightarrow> bool" where
  "truthyNumber x = (case x of None \<Rightarrow> False | Some v \<Rightarrow> v \<noteq> 0)"

definition session :: "string \<Rightarrow> nat \<Rightarrow> env \<Rightarrow> string prog" where
  "session html myOptions env =
     andThen (throwIfCanceled myOptions) (\<lambda>_.
     andThen (withOptions myOptions (\<lambda>opts.
                if \<not> truthyString (host opts) \<and> \<not> truthyNumber (port opts)
                then andThen (throwIfCanceled myOptions) (\<lambda>_.
                     andThen (launchChrome myOptions env) (\<lambda>chrome. succeed (Some chrome)))
                else succeed None)) (\<lambda>chrome.
       tryFinally
         (andThen (withOptions myOptions (\<lambda>opts.
                     await (New (host opts) (port opts)) (cdpNew env))) (\<lambda>tab.
            tryFinally
              (generate html myOptions tab env)
              (await (Close tab) (cdpClose env))))
         (case chrome of Some ch \<Rightarrow> await Kill (kill env) | None \<Rightarrow> succeed ())))"

text \<open>
  \<open>create\<close>, lines 27 to 35: the state in which the rest of \<open>create\<close> starts.
  \<open>options\<close> is the address of the caller's object, or \<open>None\<close> when the argument is
  left out; \<open>h\<close> is the heap at the call. The copy \<open>myOptions\<close> is a new object at the
  end of the heap; \<open>_canceled\<close> is set to false in it, and the timer is set when
  \<open>myOptions.timeout >= 0\<close> holds, which is false for a missing timeout.
\<close>

definition start :: "nat option \<Rightarrow> CreateOptions list \<Rightarrow> state" where
  "start options h =
     (let myOptions = length h;
          s0 = \<lparr>heap = h @ [case options of None \<Rightarrow> emptyOptions | Some a \<Rightarrow> deref h a],
                clock = 0, timer = None, trace = []\<rparr>;
          s1 = assign myOptions (\<lambda>opts. opts\<lparr>canceled := Some False\<rparr>) s0
      in case timeout (deref (heap s1) myOptions) of
           Some T \<Rightarrow> if T \<ge> 0 then setTimeout myOptions T s1 else s1
         | None \<Rightarrow> s1)"

definition create :: "string \<Rightarrow> nat option \<Rightarrow> env \<Rightarrow> CreateOptions list \<Rightarrow> (error + string) \<times> state" where
  "create html options env h = session html (length h) env (start options h)"

text \<open>A run in which every collaborator succeeds, used to instantiate the theorems.\<close>

definition fineEnv :: env where
  "fineEnv = \<lparr>launch = (Inr 9222, 5), cdpNew = (Inr ''tab1'', 1), cdp = (Inr (), 1),
     clearBrowserCache = (Inr (), 1), pageEnable = (Inr (), 1), runtimeEnable = (Inr (), 2),
     setCookies = (Inr (), 1), navigate = (Inr (), 3), loadEventFired = (Inr (), 2),
     wait = (Inr None, 4), printToPDF = (Inr ''JVBERi0='', 6), cdpClose = (Inr (), 1),
     kill = (Inr (), 1)\<rparr>"

text \<open>
  The object \<open>Object.assign({}, options)\<close> builds, and the test of line 38 on it:
  neither \<open>host\<close> nor \<open>port\<close> is truthy.
\<close>

definition copyOf :: "nat option \<Rightarrow> CreateOptions list \<Rightarrow> CreateOptions" where
  "copyOf options h = (case options of None \<Rightarrow> emptyOptions | Some a \<Rightarrow> deref h a)"

definition launches :: "CreateOptions \<Rightarrow> bool" where
  "launches opts = (\<not> truthyString (host opts) \<and> \<not> truthyNumber (port opts))"

section \<open>Reasoning about runs\<close>

definition valid :: "(state \<Rightarrow> bool) \<Rightarrow> 'a prog \<Rightarrow> (error + 'a \<Rightarrow> state \<Rightarrow> bool) \<Rightarrow> bool" where
  "valid P m Q = (\<forall>s. P s \<longrightarrow> Q (fst (m s)) (snd (m s)))"

definition keeps :: "(state \<Rightarrow> bool) \<Rightarrow> (error \<Rightarrow> state \<Rightarrow> bool) \<Rightarrow> 'a prog \<Rightarrow> bool" where
  "keeps N X m = valid N m (\<lambda>r s. case r of Inl e \<Rightarrow> X e s | Inr v \<Rightarrow> N s)"

definition stamped :: "state \<Rightarrow> event \<Rightarrow> bool" where
  "stamped s e = (case e of Settled c t \<Rightarrow> t = clock s | _ \<Rightarrow> True)"

definition steady :: "(event \<Rightarrow> bool) \<Rightarrow> (state \<Rightarrow> bool) \<Rightarrow> bool" where
  "steady ok N =
     ((\<forall>s e. ok e \<longrightarrow> stamped s e \<longrightarrow> N s \<longrightarrow> N (emit e s)) \<and> (\<forall>s d. N s \<longrightarrow> N (tick d s)))"

definition teardownFails :: "env \<Rightarrow> call \<Rightarrow> string \<Rightarrow> bool" where
  "teardownFails env c m =
     (case c of Close t \<Rightarrow> fst (cdpClose env) = Inl m | Kill \<Rightarrow> fst (kill env) = Inl m
      | _ \<Rightarrow> False)"

definition eventCall :: "event \<Rightarrow> call option" where
  "eventCall e = (case e of Issued c \<Rightarrow> Some c | Settled c t \<Rightarrow> Some c | GuardFailed \<Rightarrow> None)"

definition beforeNavigateCall :: "call \<Rightarrow> bool" where
  "beforeNavigateCall c =
     (case c of ClearBrowserCache \<Rightarrow> True | PageEnable \<Rightarrow> True | RuntimeEnable \<Rightarrow> True
      | ConsoleAPICalled x \<Rightarrow> True | ExceptionThrown x \<Rightarrow> True | SetCookies x \<Rightarrow> True
      | _ \<Rightarrow> False)"

definition generateCall :: "string \<Rightarrow> call \<Rightarrow> bool" where
  "generateCall html c =
     (case c of Launch p cp fl \<Rightarrow> False | New hs p \<Rightarrow> False | Close t \<Rightarrow> False | Kill \<Rightarrow> False
      | Navigate u \<Rightarrow> u = navigationUrl html | _ \<Rightarrow> True)"

definition sessionCall :: "string \<Rightarrow> call \<Rightarrow> bool" where
  "sessionCall html c = (case c of Navigate u \<Rightarrow> u = navigationUrl html | _ \<Rightarrow> True)"

definition calls :: "(call \<Rightarrow> bool) \<Rightarrow> event \<Rightarrow> bool" where
  "calls p e = (case eventCall e of Some c \<Rightarrow> p c | None \<Rightarrow> False)"

text \<open>The teardown calls: closing the tab and killing the launched process.\<close>

definition teardownCall :: "call \<Rightarrow> bool" where
  "teardownCall c = (case c of Close t \<Rightarrow> True | Kill \<Rightarrow> True | _ \<Rightarrow> False)"

text \<open>Runs in which the print call fails, and in which closing the tab fails as well.\<close>

definition printFails :: env where
  "printFails = fineEnv\<lparr>printToPDF := (Inl ''print failed'', 6)\<rparr>"

definition closeFailsToo :: env where
  "closeFailsToo = printFails\<lparr>cdpClose := (Inl ''close failed'', 1)\<rparr>"

definition generateEvents :: "string \<Rightarrow> event list \<Rightarrow> bool" where
  "generateEvents html es = (\<forall>e\<in>set es. e = GuardFailed \<or> calls (generateCall html) e)"

definition launchCall :: "CreateOptions \<Rightarrow> call" where
  "launchCall opts =
     Launch (port opts) (chromePath opts)
       (case chromeFlags opts of None \<Rightarrow> DEFAULT_CHROME_FLAGS | Some fl \<Rightarrow> fl)"

definition ends :: "(state \<Rightarrow> bool) \<Rightarrow> 'a prog \<Rightarrow> ('a \<Rightarrow> state \<Rightarrow> bool) \<Rightarrow> (error \<Rightarrow> state \<Rightarrow> bool) \<Rightarrow> bool" where
  "ends P m Y X = valid P m (\<lambda>r s. case r of Inl e \<Rightarrow> X e s | Inr v \<Rightarrow> Y v s)"

definition flagSet :: "nat \<Rightarrow> state \<Rightarrow> bool" where
  "flagSet a s = (canceled (deref (heap s) a) = Some True)"

definition firstCall :: "call \<Rightarrow> bool" where
  "firstCall c = (case c of Connect t \<Rightarrow> True | _ \<Rightarrow> beforeNavigateCall c)"

definition openingCall :: "call \<Rightarrow> bool" where
  "openingCall c = (case c of Launch p cp fl \<Rightarrow> True | New hs p \<Rightarrow> True | _ \<Rightarrow> False)"

definition joined :: "event list \<Rightarrow> bool" where
  "joined t = ((\<exists>u tn. Settled (Navigate u) tn \<in> set t) \<and> (\<exists>tl. Settled LoadEventFired tl \<in> set t))"

definition waitsAfterJoin :: "event list \<Rightarrow> bool" where
  "waitsAfterJoin t = (\<forall>pre post. t = pre @ Issued Wait # post \<longrightarrow> joined pre)"

definition triggerEnv :: env where
  "triggerEnv = fineEnv\<lparr>wait := (Inr (Some \<lparr>exceptionDetails = True, resultValue = ''boom''\<rparr>), 4)\<rparr>"

definition remoteWithTrigger :: CreateOptions where
  "remoteWithTrigger = emptyOptions\<lparr>host := Some ''localhost'', completionTrigger := Some ''trigger''\<rparr>"

definition noWait :: "state \<Rightarrow> bool" where
  "noWait s = (Issued Wait \<notin> set (trace s))"

definition joinedState :: "state \<Rightarrow> bool" where
  "joinedState s = (joined (trace s) \<and> waitsAfterJoin (trace s))"

definition orderly :: "state \<Rightarrow> bool" where
  "orderly s = waitsAfterJoin (trace s)"

definition timed :: "int \<Rightarrow> nat \<Rightarrow> state \<Rightarrow> bool" where
  "timed T a s =
     (a < length (heap s) \<and>
      (if int (clock s) \<le> T
       then timer s = Some (T, a) \<and> canceled (deref (heap s) a) = Some False
       else timer s = None \<and> canceled (deref (heap s) a) = Some True))"

definition unwaited :: "state \<Rightarrow> bool" where
  "unwaited s = (\<forall>e\<in>set (trace s). eventCall e \<noteq> Some Wait)"

definition unguarded :: "state \<Rightarrow> bool" where
  "unguarded s = (GuardFailed \<notin> set (trace s))"

definition unprinted :: "state \<Rightarrow> bool" where
  "unprinted s = (\<forall>po. Issued (PrintToPDF po) \<notin> set (trace s))"

definition verdict :: "env \<Rightarrow> string \<Rightarrow> error \<Rightarrow> state \<Rightarrow> bool" where
  "verdict env v e s =
     ((e = Evaluation v \<and> GuardFailed \<notin> set (trace s))
      \<or> (e = Timeout \<and> GuardFailed \<in> set (trace s))
      \<or> (\<exists>c m. e = External c m \<and> teardownFails env c m))"

definition beforeWait :: "state \<Rightarrow> bool" where
  "beforeWait s = (unwaited s \<and> unguarded s \<and> unprinted s)"

definition notWaited :: "state \<Rightarrow> bool" where
  "notWaited s = (unwaited s \<and> unguarded s)"

definition evalFailed :: "env \<Rightarrow> string \<Rightarrow> error \<Rightarrow> state \<Rightarrow> bool" where
  "evalFailed env v e s = (unwaited s \<or> (unprinted s \<and> verdict env v e s))"

definition lateTrigger :: CreateOptions where
  "lateTrigger = remoteWithTrigger\<lparr>timeout := Some 8\<rparr>"

definition triggerCloseFails :: env where
  "triggerCloseFails = triggerEnv\<lparr>cdpClose := (Inl ''close failed'', 1)\<rparr>"

definition waitedLate :: "env \<Rightarrow> int \<Rightarrow> error \<Rightarrow> state \<Rightarrow> bool" where
  "waitedLate env T e s =
     (unwaited s \<or>
      (\<forall>t. Settled Wait t \<in> set (trace s) \<longrightarrow> T < int t \<longrightarrow>
           e = Timeout \<or> (\<exists>c m. e = External c m \<and> teardownFails env c m)))"

definition timedUnwaited :: "int \<Rightarrow> nat \<Rightarrow> state \<Rightarrow> bool" where
  "timedUnwaited T a s = (timed T a s \<and> unwaited s)"

text \<open>
  The part of \<open>generate\<close> inside its \<open>try\<close> block (lines 69 to 80), and the calls it
  makes: those of \<open>generate\<close> except \<open>client.close()\<close>, which belongs to the \<open>finally\<close>.
\<close>

definition generateBody :: "string \<Rightarrow> nat \<Rightarrow> env \<Rightarrow> string prog" where
  "generateBody html options env =
     andThen (beforeNavigate options env) (\<lambda>_.
     andThen (awaitAll (Navigate (navigationUrl html)) (navigate env)
                       LoadEventFired (loadEventFired env)) (\<lambda>_.
     andThen (afterNavigate options env) (\<lambda>_.
     andThen (withOptions options (\<lambda>opts.
                await (PrintToPDF (printOptions opts)) (printToPDF env))) (\<lambda>pdf.
     andThen (throwIfCanceled options) (\<lambda>_.
     succeed pdf)))))"

definition bodyCall :: "string \<Rightarrow> call \<Rightarrow> bool" where
  "bodyCall html c = (generateCall html c \<and> c \<noteq> ClientClose)"

text \<open>
  What \<open>generate\<close> does with the protocol connection, read off the events \<open>es\<close> it adds:
  when \<open>CDP(...)\<close> was called and fulfilled, \<open>client.close()\<close> is its last call and is
  made once; otherwise it is not made.
\<close>

definition clientClosed :: "string \<Rightarrow> env \<Rightarrow> event list \<Rightarrow> bool" where
  "clientClosed tab env es =
     (if Issued (Connect tab) \<in> set es \<and> fst (cdp env) = Inr ()
      then \<exists>body. es = body @ [Issued ClientClose] \<and> Issued ClientClose \<notin> set body
      else Issued ClientClose \<notin> set es)"


definition onTime :: "int \<Rightarrow> state \<Rightarrow> bool" where
  "onTime T s = (\<forall>c t. Settled c t \<in> set (trace s) \<longrightarrow> \<not> teardownCall c \<longrightarrow> int t \<le> T)"






section \<open>The classifier agrees with the specification's wording\<close>

lemma matchFrom_word:
  "matchFrom (word w) s = (if startsWithIgnoreCase w s then [drop (length w) s] else [])"
proof (induction w arbitrary: s)
  case Nil
  then show ?case by (simp add: startsWithIgnoreCase_def)
next
  case (Cons c cs)
  show ?case
  proof (cases s)
    case Nil
    then show ?thesis by (simp add: startsWithIgnoreCase_def)
  next
    case (Cons x xs)
    then show ?thesis using Cons.IH [of xs] by (simp add: startsWithIgnoreCase_def)
  qed
qed

lemma startsWith_append:
  "startsWithIgnoreCase (p @ q) s =
     (startsWithIgnoreCase p s \<and> startsWithIgnoreCase q (drop (length p) s))"
proof (induction p arbitrary: s)
  case Nil
  then show ?case by (simp add: startsWithIgnoreCase_def)
next
  case (Cons c cs)
  show ?case
  proof (cases s)
    case Nil
    then show ?thesis by (simp add: startsWithIgnoreCase_def)
  next
    case (Cons x xs)
    then show ?thesis using Cons.IH [of xs] by (auto simp add: startsWithIgnoreCase_def)
  qed
qed

lemma test_Chr:
  "(matchFrom (Chr c) s \<noteq> []) = startsWithIgnoreCase [c] s"
  by (cases s) (simp_all add: startsWithIgnoreCase_def)

lemma set_matchFrom_Chr:
  "set (matchFrom (Chr c) s) = (if startsWithIgnoreCase [c] s then {drop (length [c]) s} else {})"
  by (cases s) (simp_all add: startsWithIgnoreCase_def)

lemma set_matchFrom_word:
  "set (matchFrom (word w) s) = (if startsWithIgnoreCase w s then {drop (length w) s} else {})"
  by (simp add: matchFrom_word)

lemma test_Seq:
  "(matchFrom (Seq a b) s \<noteq> []) = (\<exists>r\<in>set (matchFrom a s). matchFrom b r \<noteq> [])"
  by simp

lemma test_schemePattern: "test schemePattern s = hasSchemePrefix s"
proof -
  let ?H = "startsWithIgnoreCase ''http'' s"
  let ?r = "drop (length ''http'') s"
  have a: "startsWithIgnoreCase ''http:'' s = (?H \<and> startsWithIgnoreCase '':'' ?r)"
    using startsWith_append [of "''http''" "'':''" s] by simp
  have b: "startsWithIgnoreCase ''https:'' s =
      (?H \<and> startsWithIgnoreCase ''s'' ?r \<and> startsWithIgnoreCase '':'' (drop (length ''s'') ?r))"
    using startsWith_append [of "''http''" "''s:''" s] startsWith_append [of "''s''" "'':''" ?r]
    by simp
  have c: "startsWithIgnoreCase ''file:'' s =
      (startsWithIgnoreCase ''file'' s \<and> startsWithIgnoreCase '':'' (drop (length ''file'') s))"
    using startsWith_append [of "''file''" "'':''" s] by simp
  have d: "startsWithIgnoreCase ''data:'' s =
      (startsWithIgnoreCase ''data'' s \<and> startsWithIgnoreCase '':'' (drop (length ''data'') s))"
    using startsWith_append [of "''data''" "'':''" s] by simp
  have h: "set (matchFrom (Seq (word ''http'') (Opt (Chr CHR ''s''))) s) =
      (if ?H then (if startsWithIgnoreCase ''s'' ?r then {drop (length ''s'') ?r} else {}) \<union> {?r}
       else {})"
    using set_matchFrom_word [of "''http''" s] set_matchFrom_Chr [of "CHR ''s''" ?r]
    by (simp only: matchFrom.simps(3,5) set_concat set_map set_append) auto
  have alt: "set (matchFrom (Alt (Seq (word ''http'') (Opt (Chr CHR ''s'')))
                  (Alt (word ''file'') (word ''data''))) s) =
      set (matchFrom (Seq (word ''http'') (Opt (Chr CHR ''s''))) s) \<union>
      (if startsWithIgnoreCase ''file'' s then {drop (length ''file'') s} else {}) \<union>
      (if startsWithIgnoreCase ''data'' s then {drop (length ''data'') s} else {})"
    using set_matchFrom_word [of "''file''" s] set_matchFrom_word [of "''data''" s]
    by (simp only: matchFrom.simps(4) set_append Un_assoc)
  have "test schemePattern s =
      (\<exists>r\<in>set (matchFrom (Alt (Seq (word ''http'') (Opt (Chr CHR ''s'')))
                  (Alt (word ''file'') (word ''data''))) s). startsWithIgnoreCase '':'' r)"
    unfolding test_def schemePattern_def test_Seq test_Chr ..
  also have "\<dots> = hasSchemePrefix s"
    unfolding alt h hasSchemePrefix_def a b c d by (auto split: if_splits)
  finally show ?thesis .
qed

section \<open>Rules for runs\<close>

lemma emit_simps [simp]:
  "trace (emit e s) = trace s @ [e]" "heap (emit e s) = heap s"
  "clock (emit e s) = clock s" "timer (emit e s) = timer s"
  by (simp_all add: emit_def)

lemma assign_simps [simp]:
  "trace (assign a f s) = trace s" "clock (assign a f s) = clock s"
  "timer (assign a f s) = timer s" "length (heap (assign a f s)) = length (heap s)"
  by (simp_all add: assign_def)

lemma tick_simps [simp]:
  "trace (tick d s) = trace s" "clock (tick d s) = clock s + d"
  "length (heap (tick d s)) = length (heap s)"
  by (simp_all add: tick_def Let_def split: option.splits)

lemma validI:
  assumes "\<And>s r s'. P s \<Longrightarrow> m s = (r, s') \<Longrightarrow> Q r s'"
  shows "valid P m Q"
  unfolding valid_def
proof (intro allI impI)
  fix s assume "P s"
  then show "Q (fst (m s)) (snd (m s))" by (rule assms) simp
qed

lemma validD:
  assumes "valid P m Q" and "P s" and "m s = (r, s')"
  shows "Q r s'"
proof -
  have "Q (fst (m s)) (snd (m s))" using assms(1,2) by (simp add: valid_def)
  then show ?thesis by (simp add: assms(3))
qed

lemma keepsI:
  assumes "\<And>s r s'. N s \<Longrightarrow> m s = (r, s') \<Longrightarrow> (case r of Inl e \<Rightarrow> X e s' | Inr v \<Rightarrow> N s')"
  shows "keeps N X m"
  unfolding keeps_def using assms by (rule validI)

lemma keepsD:
  assumes "keeps N X m" and "N s" and "m s = (r, s')"
  shows "case r of Inl e \<Rightarrow> X e s' | Inr v \<Rightarrow> N s'"
  using validD [OF assms(1) [unfolded keeps_def] assms(2,3)] .

lemma valid_weaken:
  "valid P' m Q' \<Longrightarrow> (\<And>s. P s \<Longrightarrow> P' s) \<Longrightarrow> (\<And>r s. Q' r s \<Longrightarrow> Q r s) \<Longrightarrow> valid P m Q"
  by (simp add: valid_def)

lemma valid_andThen:
  assumes m: "valid P m (\<lambda>r s. case r of Inl e \<Rightarrow> Q (Inl e) s | Inr v \<Rightarrow> R v s)"
    and f: "\<And>v. valid (R v) (f v) Q"
  shows "valid P (andThen m f) Q"
proof (rule validI)
  fix s r s' assume p: "P s" and run: "andThen m f s = (r, s')"
  obtain r1 s1 where ms: "m s = (r1, s1)" by (cases "m s")
  show "Q r s'"
  proof (cases r1)
    case (Inl e)
    then show ?thesis using validD [OF m p ms] run ms by (simp add: andThen_def)
  next
    case (Inr v)
    then have "R v s1" using validD [OF m p ms] by simp
    moreover have "f v s1 = (r, s')" using run ms Inr by (simp add: andThen_def)
    ultimately show ?thesis using f validD by blast
  qed
qed

lemma valid_tryFinally:
  assumes m: "valid P m R"
    and fin: "\<And>r. valid (R r) fin (\<lambda>r' s. case r' of Inl e \<Rightarrow> Q (Inl e) s | Inr u \<Rightarrow> Q r s)"
  shows "valid P (tryFinally m fin) Q"
proof (rule validI)
  fix s r s' assume p: "P s" and run: "tryFinally m fin s = (r, s')"
  obtain r1 s1 where ms: "m s = (r1, s1)" by (cases "m s")
  obtain r2 s2 where fs: "fin s1 = (r2, s2)" by (cases "fin s1")
  have "R r1 s1" using validD [OF m p ms] .
  then have "case r2 of Inl e \<Rightarrow> Q (Inl e) s2 | Inr u \<Rightarrow> Q r1 s2"
    using validD [OF fin _ fs] by blast
  then show "Q r s'" using run ms fs by (cases r2) (auto simp add: tryFinally_def)
qed

lemma valid_withOptions:
  assumes "\<And>opts. valid (\<lambda>s. P s \<and> opts = deref (heap s) a) (f opts) Q"
  shows "valid P (withOptions a f) Q"
  using assms unfolding valid_def withOptions_def by simp

lemma keeps_andThen:
  assumes "keeps N X m" and "\<And>v. keeps N X (f v)"
  shows "keeps N X (andThen m f)"
proof (rule keepsI)
  fix s r s' assume n: "N s" and run: "andThen m f s = (r, s')"
  obtain r1 s1 where ms: "m s = (r1, s1)" by (cases "m s")
  show "case r of Inl e \<Rightarrow> X e s' | Inr v \<Rightarrow> N s'"
  proof (cases r1)
    case (Inl e)
    then show ?thesis using keepsD [OF assms(1) n ms] run ms by (auto simp add: andThen_def)
  next
    case (Inr v)
    then have "N s1" using keepsD [OF assms(1) n ms] by simp
    moreover have "f v s1 = (r, s')" using run ms Inr by (simp add: andThen_def)
    ultimately show ?thesis using keepsD [OF assms(2)] by blast
  qed
qed

lemma keeps_tryFinally:
  assumes m: "keeps N X m" and fin: "keeps N X fin" and finx: "\<And>e. keeps (X e) X fin"
  shows "keeps N X (tryFinally m fin)"
proof (rule keepsI)
  fix s r s' assume n: "N s" and run: "tryFinally m fin s = (r, s')"
  obtain r1 s1 where ms: "m s = (r1, s1)" by (cases "m s")
  obtain r2 s2 where fs: "fin s1 = (r2, s2)" by (cases "fin s1")
  have rs: "(r, s') = (case r2 of Inl e \<Rightarrow> (Inl e, s2) | Inr u \<Rightarrow> (r1, s2))"
    using run ms fs by (simp add: tryFinally_def)
  show "case r of Inl e \<Rightarrow> X e s' | Inr v \<Rightarrow> N s'"
  proof (cases r1)
    case (Inl e)
    then have "X e s1" using keepsD [OF m n ms] by simp
    then show ?thesis using keepsD [OF finx _ fs] rs Inl by (cases r2) auto
  next
    case (Inr v)
    then have "N s1" using keepsD [OF m n ms] by simp
    then show ?thesis using keepsD [OF fin _ fs] rs Inr by (cases r2) auto
  qed
qed

lemma keeps_withOptions: "(\<And>opts. keeps N X (f opts)) \<Longrightarrow> keeps N X (withOptions a f)"
  unfolding keeps_def valid_def withOptions_def by simp

lemma keeps_succeed: "keeps N X (succeed v)"
  unfolding keeps_def valid_def succeed_def by simp

lemma keeps_throw: "(\<And>s. N s \<Longrightarrow> X e s) \<Longrightarrow> keeps N X (throw e)"
  unfolding keeps_def valid_def throw_def by simp

lemma keeps_if: "keeps N X a \<Longrightarrow> keeps N X b \<Longrightarrow> keeps N X (if c then a else b)"
  by simp

lemma keeps_case_option:
  "keeps N X a \<Longrightarrow> (\<And>y. keeps N X (b y)) \<Longrightarrow> keeps N X (case x of None \<Rightarrow> a | Some y \<Rightarrow> b y)"
  by (cases x) simp_all

lemma steady_emit: "steady ok N \<Longrightarrow> ok e \<Longrightarrow> stamped s e \<Longrightarrow> N s \<Longrightarrow> N (emit e s)"
  by (simp add: steady_def)

lemma steady_tick: "steady ok N \<Longrightarrow> N s \<Longrightarrow> N (tick d s)"
  by (simp add: steady_def)

lemma steady_mono: "steady ok N \<Longrightarrow> (\<And>e. ok' e \<Longrightarrow> ok e) \<Longrightarrow> steady ok' N"
  by (simp add: steady_def)

lemma keeps_invoke:
  assumes "steady ok N" and "ok (Issued c)"
  shows "keeps N X (invoke c)"
  by (rule keepsI) (auto simp add: invoke_def stamped_def steady_emit [OF assms])

lemma keeps_guard:
  assumes "\<And>s. N s \<Longrightarrow> canceled (deref (heap s) a) = Some True \<Longrightarrow> X Timeout (emit GuardFailed s)"
  shows "keeps N X (throwIfCanceled a)"
  by (rule keepsI) (auto simp add: throwIfCanceled_def assms split: if_splits)

lemma await_state:
  assumes st: "steady ok N" and i: "ok (Issued c)" and se: "\<And>t. ok (Settled c t)" and n: "N s"
  shows "N (emit (Settled c (clock (tick d (emit (Issued c) s)))) (tick d (emit (Issued c) s)))"
  by (intro steady_emit [OF st] steady_tick [OF st] i se n) (simp_all add: stamped_def)

lemma keeps_await:
  assumes st: "steady ok N" and i: "ok (Issued c)" and se: "\<And>t. ok (Settled c t)"
    and ext: "\<And>s m. fst r = Inl m \<Longrightarrow> N s \<Longrightarrow> X (External c m) s"
  shows "keeps N X (await c r)"
proof (rule keepsI)
  fix s ra s' assume n: "N s" and run: "await c r s = (ra, s')"
  have s': "s' = emit (Settled c (clock (tick (snd r) (emit (Issued c) s)))) (tick (snd r) (emit (Issued c) s))"
    using run by (auto simp add: await_def Let_def split: sum.splits)
  have "N s'" unfolding s' by (rule await_state [OF st i se n])
  moreover have "case ra of Inl e \<Rightarrow> \<exists>m. e = External c m \<and> fst r = Inl m | Inr v \<Rightarrow> True"
    using run by (auto simp add: await_def Let_def split: sum.splits)
  ultimately show "case ra of Inl e \<Rightarrow> X e s' | Inr v \<Rightarrow> N s'"
    using ext by (auto split: sum.splits)
qed

lemma keeps_awaitAll:
  assumes st: "steady ok N" and i1: "ok (Issued c1)" and se1: "\<And>t. ok (Settled c1 t)"
    and i2: "ok (Issued c2)" and se2: "\<And>t. ok (Settled c2 t)"
    and ext: "\<And>s c m. N s \<Longrightarrow> X (External c m) s"
  shows "keeps N X (awaitAll c1 r1 c2 r2)"
proof (rule keepsI)
  fix s ra s' assume n: "N s" and run: "awaitAll c1 r1 c2 r2 s = (ra, s')"
  have n0: "N (emit (Issued c2) (emit (Issued c1) s))"
    by (intro steady_emit [OF st] i1 i2 n) (simp_all add: stamped_def)
  have a: "\<And>s d. N s \<Longrightarrow> N (emit (Settled c1 (clock (tick d s))) (tick d s))"
    by (intro steady_emit [OF st] steady_tick [OF st] se1) (simp_all add: stamped_def)
  have b: "\<And>s d. N s \<Longrightarrow> N (emit (Settled c2 (clock (tick d s))) (tick d s))"
    by (intro steady_emit [OF st] steady_tick [OF st] se2) (simp_all add: stamped_def)
  have "N s'"
    using run n0 a b
    by (auto simp add: awaitAll_def Let_def simp del: tick_simps emit_simps
        split: sum.splits if_splits)
  moreover have "case ra of Inl e \<Rightarrow> \<exists>c m. e = External c m | Inr v \<Rightarrow> True"
    using run by (auto simp add: awaitAll_def Let_def split: sum.splits if_splits)
  ultimately show "case ra of Inl e \<Rightarrow> X e s' | Inr v \<Rightarrow> N s'"
    using ext by (auto split: sum.splits)
qed

lemma keeps_update:
  assumes "\<And>s. N s \<Longrightarrow> N (g s)"
  shows "keeps N X (\<lambda>s. (Inr v, g s))"
  by (rule keepsI) (auto simp add: assms)

lemma beforeNavigate_keeps:
  assumes st: "steady (calls beforeNavigateCall) N"
    and guard: "\<And>s. N s \<Longrightarrow> canceled (deref (heap s) a) = Some True \<Longrightarrow> X Timeout (emit GuardFailed s)"
    and ext: "\<And>s c m. N s \<Longrightarrow> X (External c m) s"
  shows "keeps N X (beforeNavigate a env)"
  unfolding beforeNavigate_def
  by (rule keeps_andThen keeps_withOptions keeps_if keeps_case_option keeps_succeed
        keeps_guard keeps_await [OF st] keeps_awaitAll [OF st] keeps_invoke [OF st]
      | simp add: guard ext calls_def eventCall_def beforeNavigateCall_def)+

lemma afterNavigate_keeps:
  assumes st: "steady (calls (\<lambda>c. c = Wait)) N"
    and guard: "\<And>s. N s \<Longrightarrow> canceled (deref (heap s) a) = Some True \<Longrightarrow> X Timeout (emit GuardFailed s)"
    and ext: "\<And>s c m. N s \<Longrightarrow> X (External c m) s"
    and eval: "\<And>s v. N s \<Longrightarrow> X (Evaluation v) s"
  shows "keeps N X (afterNavigate a env)"
  unfolding afterNavigate_def
  by (rule keeps_andThen keeps_withOptions keeps_if keeps_case_option keeps_succeed keeps_throw
        keeps_guard keeps_await [OF st]
      | simp add: guard ext eval calls_def eventCall_def)+

lemma generate_keeps:
  assumes st: "steady (calls (generateCall html)) N"
    and stx: "\<And>e. steady (calls (generateCall html)) (X e)"
    and guard: "\<And>s. N s \<Longrightarrow> canceled (deref (heap s) a) = Some True \<Longrightarrow> X Timeout (emit GuardFailed s)"
    and ext: "\<And>s c m. N s \<Longrightarrow> X (External c m) s"
    and eval: "\<And>s v. N s \<Longrightarrow> X (Evaluation v) s"
  shows "keeps N X (generate html a tab env)"
proof -
  have b: "steady (calls beforeNavigateCall) N"
    by (rule steady_mono [OF st])
       (auto simp add: calls_def generateCall_def beforeNavigateCall_def eventCall_def
             split: event.splits call.splits)
  have w: "steady (calls (\<lambda>c. c = Wait)) N"
    by (rule steady_mono [OF st])
       (auto simp add: calls_def generateCall_def eventCall_def split: event.splits)
  show ?thesis
    unfolding generate_def
    by (rule keeps_andThen keeps_tryFinally keeps_withOptions keeps_succeed keeps_guard
          beforeNavigate_keeps [OF b] afterNavigate_keeps [OF w]
          keeps_await [OF st] keeps_awaitAll [OF st] keeps_invoke [OF st] keeps_invoke [OF stx]
        | simp add: guard ext eval calls_def eventCall_def generateCall_def)+
qed

lemma session_keeps:
  assumes st: "steady (calls (sessionCall html)) N"
    and stx: "\<And>e. steady (calls (sessionCall html)) (X e)"
    and guard: "\<And>s. N s \<Longrightarrow> canceled (deref (heap s) a) = Some True \<Longrightarrow> X Timeout (emit GuardFailed s)"
    and ext: "\<And>s c m. N s \<Longrightarrow> X (External c m) s"
    and xext: "\<And>s e c m. X e s \<Longrightarrow> X (External c m) s"
    and eval: "\<And>s v. N s \<Longrightarrow> X (Evaluation v) s"
    and port: "\<And>s p. N s \<Longrightarrow> N (assign a (\<lambda>opts. opts\<lparr>port := Some p\<rparr>) s)"
  shows "keeps N X (session html a env)"
proof -
  have g: "steady (calls (generateCall html)) N"
    by (rule steady_mono [OF st])
       (auto simp add: calls_def generateCall_def sessionCall_def eventCall_def
             split: event.splits call.splits)
  have gx: "\<And>e. steady (calls (generateCall html)) (X e)"
    by (rule steady_mono [OF stx])
       (auto simp add: calls_def generateCall_def sessionCall_def eventCall_def
             split: event.splits call.splits)
  show ?thesis
    unfolding session_def launchChrome_def
    by (rule keeps_andThen keeps_tryFinally keeps_withOptions keeps_succeed keeps_guard
          keeps_if keeps_case_option keeps_update
          generate_keeps [OF g gx]
          keeps_await [OF st] keeps_await [OF stx]
        | simp add: guard ext xext eval port calls_def eventCall_def sessionCall_def)+
qed

lemma deref_assign:
  "deref (heap (assign b f s)) a =
     (if a = b \<and> a < length (heap s) then f (deref (heap s) a) else deref (heap s) a)"
  by (simp add: assign_def deref_def)

lemma deref_emit [simp]: "deref (heap (emit e s)) a = deref (heap s) a"
  by simp

lemma tick_no_timer: "timer s = None \<Longrightarrow> tick d s = s\<lparr>clock := clock s + d\<rparr>"
  by (simp add: tick_def)

section \<open>Runs of \<open>create\<close>\<close>

lemmas run_defs =
  create_def start_def session_def generate_def beforeNavigate_def afterNavigate_def
  throwIfCanceled_def launchChrome_def withOptions_def andThen_def tryFinally_def await_def
  awaitAll_def invoke_def succeed_def throw_def tick_def emit_def assign_def deref_def
  setTimeout_def emptyOptions_def truthyString_def truthyNumber_def Let_def
  DEFAULT_CHROME_FLAGS_def

lemma create_keeps:
  assumes "keeps N X (session html (length h) env)" and "N (start options h)"
  shows "case fst (create html options env h) of
           Inl e \<Rightarrow> X e (snd (create html options env h))
         | Inr v \<Rightarrow> N (snd (create html options env h))"
  using keepsD [OF assms, of "fst (create html options env h)" "snd (create html options env h)"]
  by (simp add: create_def)

lemma trace_start [simp]: "trace (start options h) = []"
  by (simp add: start_def setTimeout_def Let_def split: option.splits)

text \<open>
  C2. For every input string, the URL passed to the navigation command is the input
  itself when the input starts with \<open>http:\<close>, \<open>https:\<close>, \<open>file:\<close> or \<open>data:\<close>
  (letter case ignored), and \<open>data:text/html,\<close> followed by the input otherwise.
\<close>

theorem create_navigation_url:
  assumes "Issued (Navigate url) \<in> set (trace (snd (create html options env h)))"
  shows "url = (if hasSchemePrefix html then html else ''data:text/html,'' @ html)"
proof -
  define N where "N = (\<lambda>s::state. \<forall>u. Issued (Navigate u) \<in> set (trace s) \<longrightarrow> u = navigationUrl html)"
  have st: "steady (calls (sessionCall html)) N"
    by (auto simp add: steady_def N_def calls_def sessionCall_def eventCall_def)
  have "keeps N (\<lambda>e. N) (session html (length h) env)"
    by (rule session_keeps [OF st st]) (auto simp add: N_def)
  moreover have "N (start options h)" by (simp add: N_def)
  ultimately have "N (snd (create html options env h))"
    using create_keeps [of N "\<lambda>e. N" html h env options] by (auto split: sum.splits)
  then have "url = navigationUrl html" using assms by (simp add: N_def)
  then show ?thesis by (simp add: navigationUrl_def test_schemePattern)
qed

theorem create_navigation_url_witness:
  "Issued (Navigate ''data:text/html,<h1>hi</h1>'')
     \<in> set (trace (snd (create ''<h1>hi</h1>'' None fineEnv [])))
   \<and> ''data:text/html,<h1>hi</h1>''
       = (if hasSchemePrefix ''<h1>hi</h1>'' then ''<h1>hi</h1>''
          else ''data:text/html,'' @ ''<h1>hi</h1>'')"
proof -
  have run: "Issued (Navigate ''data:text/html,<h1>hi</h1>'')
     \<in> set (trace (snd (create ''<h1>hi</h1>'' None fineEnv [])))"
    by (simp add: run_defs fineEnv_def navigationUrl_def test_def schemePattern_def
          canonicalize_def)
  show ?thesis using run create_navigation_url [OF run] by simp
qed

lemma start_simps [simp]:
  "length (heap (start options h)) = Suc (length h)"
  "clock (start options h) = 0"
  "take (length h) (heap (start options h)) = h"
  by (simp_all add: start_def setTimeout_def assign_def Let_def split: option.splits)

lemma start_myOptions:
  "deref (heap (start options h)) (length h) =
     (case options of None \<Rightarrow> emptyOptions | Some a \<Rightarrow> deref h a)\<lparr>canceled := Some False\<rparr>"
  by (simp add: start_def setTimeout_def assign_def deref_def Let_def split: option.splits)

lemma start_timer:
  "timer (start options h) =
     (case timeout (case options of None \<Rightarrow> emptyOptions | Some a \<Rightarrow> deref h a) of
        None \<Rightarrow> None
      | Some T \<Rightarrow> if 0 \<le> T then Some (T, length h) else None)"
  by (simp add: start_def setTimeout_def assign_def deref_def Let_def split: option.splits)

text \<open>
  C1, as amended. When the timeout option is absent or negative, no timer is set: the
  flag stays false, no guard fails and \<open>create\<close> never rejects with the timeout error,
  however long the collaborators take. (A timeout of 0 does set the timer.)
\<close>

theorem create_no_timeout:
  assumes "case timeout (case options of None \<Rightarrow> emptyOptions | Some a \<Rightarrow> deref h a) of
             None \<Rightarrow> True | Some T \<Rightarrow> T < 0"
  shows "fst (create html options env h) \<noteq> Inl Timeout
       \<and> GuardFailed \<notin> set (trace (snd (create html options env h)))
       \<and> canceled (deref (heap (snd (create html options env h))) (length h)) = Some False"
proof -
  define N where "N = (\<lambda>s::state. timer s = None \<and> length h < length (heap s)
       \<and> canceled (deref (heap s) (length h)) = Some False \<and> GuardFailed \<notin> set (trace s))"
  define X where "X = (\<lambda>e s. N s \<and> e \<noteq> Timeout)"
  have st: "steady (calls (sessionCall html)) N"
    by (auto simp add: steady_def N_def calls_def eventCall_def tick_no_timer)
  have stx: "\<And>e. steady (calls (sessionCall html)) (X e)"
    using st by (auto simp add: steady_def X_def)
  have "keeps N X (session html (length h) env)"
    by (rule session_keeps [OF st stx]) (auto simp add: N_def X_def deref_assign)
  moreover have "N (start options h)"
    using assms by (auto simp add: N_def start_myOptions start_timer split: option.splits)
  ultimately have "case fst (create html options env h) of
           Inl e \<Rightarrow> X e (snd (create html options env h))
         | Inr v \<Rightarrow> N (snd (create html options env h))"
    by (rule create_keeps)
  then show ?thesis by (auto simp add: N_def X_def split: sum.splits)
qed

theorem create_no_timeout_witness:
  "(case timeout (case Some 0 of None \<Rightarrow> emptyOptions
                  | Some a \<Rightarrow> deref [emptyOptions\<lparr>timeout := Some (- 1)\<rparr>] a) of
      None \<Rightarrow> True | Some T \<Rightarrow> T < 0)
   \<and> fst (create ''<h1>hi</h1>'' (Some 0) fineEnv [emptyOptions\<lparr>timeout := Some (- 1)\<rparr>])
       \<noteq> Inl Timeout"
proof -
  have hyp: "case timeout (case Some 0 of None \<Rightarrow> emptyOptions
                  | Some a \<Rightarrow> deref [emptyOptions\<lparr>timeout := Some (- 1)\<rparr>] a) of
      None \<Rightarrow> True | Some T \<Rightarrow> T < 0"
    by (simp add: deref_def emptyOptions_def)
  show ?thesis
    using hyp create_no_timeout [OF hyp, of "''<h1>hi</h1>''" fineEnv] by simp
qed

text \<open>
  C1 as stated fails for the timeout 0: the guard of the source is \<open>timeout >= 0\<close>, so
  the timer is set, and a run that takes any time at all is cancelled. Here the caller
  names a remote host, \<open>CDP.New\<close> takes a millisecond, and the first guard of
  \<open>generate\<close> throws.
\<close>

theorem create_timeout_zero_counterexample:
  "timeout (emptyOptions\<lparr>timeout := Some 0, host := Some ''localhost''\<rparr>) = Some 0
   \<and> (0::int) \<le> 0
   \<and> fst (create ''<h1>hi</h1>'' (Some 0) fineEnv
             [emptyOptions\<lparr>timeout := Some 0, host := Some ''localhost''\<rparr>]) = Inl Timeout"
  by (simp add: run_defs fineEnv_def)

text \<open>
  C9. \<open>create\<close> never writes to an object the caller's heap holds, the options object
  among them: the cancellation flag and the port of a launched process are written to
  the copy, which is a new object.
\<close>

theorem create_keeps_caller_options:
  "take (length h) (heap (snd (create html options env h))) = h
   \<and> (\<forall>a. options = Some a \<longrightarrow> a < length h \<longrightarrow>
          heap (snd (create html options env h)) ! a = h ! a)"
proof -
  define N where "N = (\<lambda>s::state. take (length h) (heap s) = h
       \<and> (\<forall>T b. timer s = Some (T, b) \<longrightarrow> b = length h))"
  have tk: "\<And>s d. N s \<Longrightarrow> N (tick d s)"
    by (auto simp add: N_def tick_def assign_def Let_def split: option.splits)
  have st: "steady (calls (sessionCall html)) N"
    using tk by (auto simp add: steady_def N_def)
  have "keeps N (\<lambda>e. N) (session html (length h) env)"
    by (rule session_keeps [OF st st]) (auto simp add: N_def assign_def)
  moreover have "N (start options h)"
    by (auto simp add: N_def start_timer split: option.splits if_splits)
  ultimately have "N (snd (create html options env h))"
    using create_keeps [of N "\<lambda>e. N" html h env options] by (auto split: sum.splits)
  then have t: "take (length h) (heap (snd (create html options env h))) = h"
    by (simp add: N_def)
  have "\<And>a. a < length h \<Longrightarrow> heap (snd (create html options env h)) ! a = h ! a"
    using nth_take [of _ "length h" "heap (snd (create html options env h))"] t by simp
  then show ?thesis using t by blast
qed

theorem create_keeps_caller_options_witness:
  "heap (snd (create ''<h1>hi</h1>'' (Some 0) fineEnv [emptyOptions\<lparr>timeout := Some 3\<rparr>])) ! 0
     = emptyOptions\<lparr>timeout := Some 3\<rparr>
   \<and> port (heap (snd (create ''<h1>hi</h1>'' (Some 0) fineEnv
                        [emptyOptions\<lparr>timeout := Some 3\<rparr>])) ! 1) = Some 9222
   \<and> canceled (heap (snd (create ''<h1>hi</h1>'' (Some 0) fineEnv
                        [emptyOptions\<lparr>timeout := Some 3\<rparr>])) ! 1) = Some True"
proof -
  have run: "port (heap (snd (create ''<h1>hi</h1>'' (Some 0) fineEnv
                        [emptyOptions\<lparr>timeout := Some 3\<rparr>])) ! 1) = Some 9222
   \<and> canceled (heap (snd (create ''<h1>hi</h1>'' (Some 0) fineEnv
                        [emptyOptions\<lparr>timeout := Some 3\<rparr>])) ! 1) = Some True"
    by (simp add: run_defs fineEnv_def)
  show ?thesis
    using run create_keeps_caller_options [of "[emptyOptions\<lparr>timeout := Some 3\<rparr>]"
        "''<h1>hi</h1>''" "Some 0" fineEnv]
    by simp
qed

lemma generate_events:
  assumes "generate html a tab env s = (r, s')"
  shows "\<exists>es. trace s' = trace s @ es \<and> (\<forall>e\<in>set es. e = GuardFailed \<or> calls (generateCall html) e)"
proof -
  define N where "N = (\<lambda>s1::state. \<exists>es. trace s1 = trace s @ es
       \<and> (\<forall>e\<in>set es. e = GuardFailed \<or> calls (generateCall html) e))"
  have st: "steady (calls (generateCall html)) N"
    by (auto simp add: steady_def N_def)
  have "keeps N (\<lambda>e. N) (generate html a tab env)"
    by (rule generate_keeps [OF st st]) (auto simp add: N_def)
  moreover have "N s" by (simp add: N_def)
  ultimately have "N s'" using keepsD assms by (fastforce split: sum.splits)
  then show ?thesis by (simp add: N_def)
qed

lemma start_guard [simp]:
  "throwIfCanceled (length h) (start options h) = (Inr (), start options h)"
  by (simp add: throwIfCanceled_def start_myOptions)

lemma start_withOptions [simp]:
  "withOptions (length h) f (start options h) =
     f ((copyOf options h)\<lparr>canceled := Some False\<rparr>) (start options h)"
  by (simp add: withOptions_def start_myOptions copyOf_def)

text \<open>
  C7, as amended. When the kill of the launched process fails, \<open>create\<close> rejects with
  the error of the kill; when closing the tab fails and the kill does not, it rejects
  with the error of the close. Both hold whatever \<open>generate\<close> did: an error of the
  generation sequence is replaced by the error of the teardown.
\<close>

theorem create_teardown_error:
  "(launches (copyOf options h) \<and> fst (launch env) = Inr p \<and> fst (kill env) = Inl m
      \<longrightarrow> fst (create html options env h) = Inl (External Kill m))
   \<and> ((launches (copyOf options h) \<longrightarrow> fst (launch env) = Inr p \<and> fst (kill env) = Inr ())
       \<and> fst (cdpNew env) = Inr tab \<and> fst (cdpClose env) = Inl m
      \<longrightarrow> fst (create html options env h) = Inl (External (Close tab) m))"
  by (auto simp add: create_def session_def launches_def andThen_def tryFinally_def
        launchChrome_def await_def succeed_def withOptions_def Let_def start_myOptions copyOf_def
      split: prod.splits sum.splits option.splits)

lemmas session_defs =
  create_def session_def launches_def andThen_def tryFinally_def launchChrome_def await_def
  succeed_def withOptions_def Let_def start_myOptions copyOf_def

lemma generate_eventsE:
  obtains es where "trace (snd (generate html a tab env s)) = trace s @ es"
    and "generateEvents html es"
  using generate_events [of html a tab env s "fst (generate html a tab env s)"
      "snd (generate html a tab env s)"]
  by (auto simp add: generateEvents_def)

lemma create_trace_attach:
  assumes "\<not> launches (copyOf options h)" and "fst (cdpNew env) = Inr tab"
  shows "\<exists>es t0 t1. trace (snd (create html options env h))
           = [Issued (New (host (copyOf options h)) (port (copyOf options h))),
              Settled (New (host (copyOf options h)) (port (copyOf options h))) t0]
             @ es @ [Issued (Close tab), Settled (Close tab) t1]
         \<and> generateEvents html es"
proof -
  let ?new = "New (host (copyOf options h)) (port (copyOf options h))"
  let ?s = "emit (Settled ?new (snd (cdpNew env)))
              (tick (snd (cdpNew env)) (emit (Issued ?new) (start options h)))"
  obtain es where es: "trace (snd (generate html (length h) tab env ?s)) = trace ?s @ es"
    and ok: "generateEvents html es"
    by (rule generate_eventsE)
  have "trace (snd (create html options env h))
      = trace (snd (generate html (length h) tab env ?s))
        @ [Issued (Close tab),
           Settled (Close tab) (clock (snd (generate html (length h) tab env ?s)) + snd (cdpClose env))]"
    using assms
    by (simp add: session_defs split: prod.splits sum.splits)
  then show ?thesis using es ok by simp
qed

lemma deref_tick:
  "\<exists>c. deref (heap (tick d s)) a = (deref (heap s) a)\<lparr>canceled := c\<rparr>"
proof (cases "timer s")
  case None
  then have "deref (heap (tick d s)) a = (deref (heap s) a)\<lparr>canceled := canceled (deref (heap s) a)\<rparr>"
    by (simp add: tick_no_timer)
  then show ?thesis by blast
next
  case (Some tm)
  obtain T b where tm: "tm = (T, b)" by (cases tm)
  show ?thesis
  proof (cases "T < int (clock s + d)")
    case True
    then have "tick d s = (assign b (\<lambda>opts. opts\<lparr>canceled := Some True\<rparr>) (s\<lparr>clock := clock s + d\<rparr>))\<lparr>timer := None\<rparr>"
      using Some tm by (simp add: tick_def)
    then have "deref (heap (tick d s)) a =
        (if a = b \<and> a < length (heap s) then (deref (heap s) a)\<lparr>canceled := Some True\<rparr>
         else (deref (heap s) a)\<lparr>canceled := canceled (deref (heap s) a)\<rparr>)"
      by (simp add: assign_def deref_def)
    then show ?thesis by (metis (full_types))
  next
    case False
    then have "tick d s = s\<lparr>clock := clock s + d\<rparr>"
      using Some tm by (simp add: tick_def)
    then have "deref (heap (tick d s)) a = (deref (heap s) a)\<lparr>canceled := canceled (deref (heap s) a)\<rparr>"
      by simp
    then show ?thesis by blast
  qed
qed

lemma tick_fields [simp]:
  "host (deref (heap (tick d s)) a) = host (deref (heap s) a)"
  "port (deref (heap (tick d s)) a) = port (deref (heap s) a)"
  "chromePath (deref (heap (tick d s)) a) = chromePath (deref (heap s) a)"
  "chromeFlags (deref (heap (tick d s)) a) = chromeFlags (deref (heap s) a)"
  "timeout (deref (heap (tick d s)) a) = timeout (deref (heap s) a)"
  "clearCache (deref (heap (tick d s)) a) = clearCache (deref (heap s) a)"
  "runtimeConsoleHandler (deref (heap (tick d s)) a) = runtimeConsoleHandler (deref (heap s) a)"
  "runtimeExceptionHandler (deref (heap (tick d s)) a) = runtimeExceptionHandler (deref (heap s) a)"
  "cookies (deref (heap (tick d s)) a) = cookies (deref (heap s) a)"
  "completionTrigger (deref (heap (tick d s)) a) = completionTrigger (deref (heap s) a)"
  "printOptions (deref (heap (tick d s)) a) = printOptions (deref (heap s) a)"
  using deref_tick [of d s a] by auto

lemma create_trace_attach_fail:
  assumes "\<not> launches (copyOf options h)" and "fst (cdpNew env) = Inl m"
  shows "\<exists>t0. trace (snd (create html options env h))
           = [Issued (New (host (copyOf options h)) (port (copyOf options h))),
              Settled (New (host (copyOf options h)) (port (copyOf options h))) t0]"
  using assms by (simp add: session_defs split: prod.splits sum.splits)

lemma create_trace_launch_fail:
  assumes "launches (copyOf options h)" and "fst (launch env) = Inl m"
  shows "\<exists>t. trace (snd (create html options env h))
           = [Issued (launchCall (copyOf options h)), Settled (launchCall (copyOf options h)) t]"
  using assms by (simp add: session_defs launchCall_def split: prod.splits sum.splits)

lemma create_trace_launch_new_fail:
  assumes "launches (copyOf options h)" and "fst (launch env) = Inr p"
    and "fst (cdpNew env) = Inl m"
  shows "\<exists>t t0 t2. trace (snd (create html options env h))
           = [Issued (launchCall (copyOf options h)), Settled (launchCall (copyOf options h)) t,
              Issued (New (host (copyOf options h)) (Some p)),
              Settled (New (host (copyOf options h)) (Some p)) t0,
              Issued Kill, Settled Kill t2]"
  using assms
  by (simp add: session_defs launchCall_def deref_assign split: prod.splits sum.splits)

lemma create_trace_launch:
  assumes "launches (copyOf options h)" and "fst (launch env) = Inr p"
    and "fst (cdpNew env) = Inr tab"
  shows "\<exists>es t t0 t1 t2. trace (snd (create html options env h))
           = [Issued (launchCall (copyOf options h)), Settled (launchCall (copyOf options h)) t,
              Issued (New (host (copyOf options h)) (Some p)),
              Settled (New (host (copyOf options h)) (Some p)) t0]
             @ es @ [Issued (Close tab), Settled (Close tab) t1, Issued Kill, Settled Kill t2]
         \<and> generateEvents html es"
proof -
  let ?L = "launchCall (copyOf options h)"
  let ?new = "New (host (copyOf options h)) (Some p)"
  let ?s1 = "emit (Settled ?L (snd (launch env)))
               (tick (snd (launch env)) (emit (Issued ?L) (start options h)))"
  let ?s2 = "assign (length h) (\<lambda>opts. opts\<lparr>port := Some p\<rparr>) ?s1"
  let ?s3 = "emit (Settled ?new (snd (launch env) + snd (cdpNew env)))
               (tick (snd (cdpNew env)) (emit (Issued ?new) ?s2))"
  let ?g = "snd (generate html (length h) tab env ?s3)"
  obtain es where es: "trace ?g = trace ?s3 @ es" and ok: "generateEvents html es"
    by (rule generate_eventsE)
  have "trace (snd (create html options env h))
      = trace ?g @ [Issued (Close tab), Settled (Close tab) (clock ?g + snd (cdpClose env)),
                    Issued Kill, Settled Kill (clock ?g + snd (cdpClose env) + snd (kill env))]"
    using assms
    by (simp add: session_defs launchCall_def deref_assign split: prod.splits sum.splits)
  then show ?thesis using es ok by simp
qed

lemma generateCall_not_teardown: "generateCall html c \<Longrightarrow> \<not> teardownCall c"
  by (cases c) (simp_all add: generateCall_def teardownCall_def)

lemma generateEvents_no_teardown:
  assumes "generateEvents html es" and "e \<in> set es"
  shows "\<not> calls teardownCall e"
proof -
  have "e = GuardFailed \<or> calls (generateCall html) e"
    using assms unfolding generateEvents_def by blast
  then show ?thesis
    using generateCall_not_teardown [of html]
    by (cases e) (auto simp add: calls_def eventCall_def)
qed

lemma generateEvents_no_launch:
  assumes "generateEvents html es"
  shows "Issued (Launch p cp fl) \<notin> set es"
proof
  assume "Issued (Launch p cp fl) \<in> set es"
  then have "Issued (Launch p cp fl) = GuardFailed \<or> calls (generateCall html) (Issued (Launch p cp fl))"
    using assms unfolding generateEvents_def by blast
  then show False by (simp add: calls_def eventCall_def generateCall_def)
qed

text \<open>
  C8, as amended. \<open>create\<close> launches a local process exactly when neither \<open>host\<close> nor
  \<open>port\<close> of the options is truthy (absent, the empty string or 0), and the launch is
  then its first call; otherwise no process is launched and the first call is
  \<open>CDP.New\<close> with the host and port given.
\<close>

theorem create_launches_iff:
  "((\<exists>p cp fl. Issued (Launch p cp fl) \<in> set (trace (snd (create html options env h))))
      = launches (copyOf options h))
   \<and> (launches (copyOf options h) \<longrightarrow>
        (\<exists>es. trace (snd (create html options env h))
               = Issued (launchCall (copyOf options h)) # es))
   \<and> (\<not> launches (copyOf options h) \<longrightarrow>
        (\<exists>es. trace (snd (create html options env h))
               = Issued (New (host (copyOf options h)) (port (copyOf options h))) # es))"
proof (cases "launches (copyOf options h)")
  case True
  have first: "\<exists>es. trace (snd (create html options env h)) = Issued (launchCall (copyOf options h)) # es"
  proof (cases "fst (launch env)")
    case (Inl m)
    then obtain t where "trace (snd (create html options env h))
           = [Issued (launchCall (copyOf options h)), Settled (launchCall (copyOf options h)) t]"
      using create_trace_launch_fail [OF True] by blast
    then show ?thesis by simp
  next
    case (Inr p)
    show ?thesis
    proof (cases "fst (cdpNew env)")
      case (Inl m)
      then obtain t t0 t2 where "trace (snd (create html options env h))
           = [Issued (launchCall (copyOf options h)), Settled (launchCall (copyOf options h)) t,
              Issued (New (host (copyOf options h)) (Some p)),
              Settled (New (host (copyOf options h)) (Some p)) t0,
              Issued Kill, Settled Kill t2]"
        using create_trace_launch_new_fail [OF True Inr] by blast
      then show ?thesis by simp
    next
      case (Inr tab)
      then obtain es t t0 t1 t2 where "trace (snd (create html options env h))
           = [Issued (launchCall (copyOf options h)), Settled (launchCall (copyOf options h)) t,
              Issued (New (host (copyOf options h)) (Some p)),
              Settled (New (host (copyOf options h)) (Some p)) t0]
             @ es @ [Issued (Close tab), Settled (Close tab) t1, Issued Kill, Settled Kill t2]"
        using create_trace_launch [OF True \<open>fst (launch env) = Inr p\<close>] by blast
      then show ?thesis by simp
    qed
  qed
  then have "Issued (launchCall (copyOf options h)) \<in> set (trace (snd (create html options env h)))"
    by auto
  then have "\<exists>p cp fl. Issued (Launch p cp fl) \<in> set (trace (snd (create html options env h)))"
    unfolding launchCall_def by blast
  then show ?thesis using True first by simp
next
  case False
  have nolaunch: "\<forall>p cp fl. Issued (Launch p cp fl) \<notin> set (trace (snd (create html options env h)))"
  proof (cases "fst (cdpNew env)")
    case (Inl m)
    then obtain t0 where "trace (snd (create html options env h))
           = [Issued (New (host (copyOf options h)) (port (copyOf options h))),
              Settled (New (host (copyOf options h)) (port (copyOf options h))) t0]"
      using create_trace_attach_fail [OF False] by blast
    then show ?thesis by simp
  next
    case (Inr tab)
    then obtain es t0 t1 where
      "trace (snd (create html options env h))
           = [Issued (New (host (copyOf options h)) (port (copyOf options h))),
              Settled (New (host (copyOf options h)) (port (copyOf options h))) t0]
             @ es @ [Issued (Close tab), Settled (Close tab) t1]"
      and "generateEvents html es"
      using create_trace_attach [OF False] by blast
    then show ?thesis using generateEvents_no_launch by simp
  qed
  have first: "\<exists>es. trace (snd (create html options env h))
               = Issued (New (host (copyOf options h)) (port (copyOf options h))) # es"
  proof (cases "fst (cdpNew env)")
    case (Inl m)
    then obtain t0 where "trace (snd (create html options env h))
           = [Issued (New (host (copyOf options h)) (port (copyOf options h))),
              Settled (New (host (copyOf options h)) (port (copyOf options h))) t0]"
      using create_trace_attach_fail [OF False] by blast
    then show ?thesis by simp
  next
    case (Inr tab)
    then obtain es t0 t1 where
      "trace (snd (create html options env h))
           = [Issued (New (host (copyOf options h)) (port (copyOf options h))),
              Settled (New (host (copyOf options h)) (port (copyOf options h))) t0]
             @ es @ [Issued (Close tab), Settled (Close tab) t1]"
      using create_trace_attach [OF False] by blast
    then show ?thesis by simp
  qed
  show ?thesis using False nolaunch first by simp
qed

theorem create_teardown_error_witness:
  "launches (copyOf None [])
   \<and> fst (launch closeFailsToo) = Inr 9222 \<and> fst (kill closeFailsToo) = Inr ()
   \<and> fst (cdpNew closeFailsToo) = Inr ''tab1''
   \<and> fst (cdpClose closeFailsToo) = Inl ''close failed''
   \<and> fst (create ''<h1>hi</h1>'' None closeFailsToo [])
       = Inl (External (Close ''tab1'') ''close failed'')"
proof -
  have hyp: "launches (copyOf None [])
     \<and> fst (launch closeFailsToo) = Inr 9222 \<and> fst (kill closeFailsToo) = Inr ()
     \<and> fst (cdpNew closeFailsToo) = Inr ''tab1''
     \<and> fst (cdpClose closeFailsToo) = Inl ''close failed''"
    by (simp add: launches_def copyOf_def emptyOptions_def truthyString_def truthyNumber_def
          closeFailsToo_def printFails_def fineEnv_def)
  show ?thesis
    using hyp create_teardown_error [of None "[]" closeFailsToo 9222 "''close failed''"
        "''<h1>hi</h1>''" "''tab1''"]
    by simp
qed

text \<open>
  C7 as stated fails: the print call fails, so the generation sequence fails with the
  error of the print call (first run, where the teardown succeeds); when closing the
  tab fails as well (second run), \<open>create\<close> rejects with the error of the close.
\<close>

theorem create_teardown_masks_counterexample:
  "fst (create ''<h1>hi</h1>'' None printFails [])
     = Inl (External (PrintToPDF None) ''print failed'')
   \<and> fst (create ''<h1>hi</h1>'' None closeFailsToo [])
     = Inl (External (Close ''tab1'') ''close failed'')"
  by (simp add: run_defs closeFailsToo_def printFails_def fineEnv_def)

theorem create_launches_iff_witness:
  "\<not> launches (copyOf (Some 0) [emptyOptions\<lparr>host := Some ''localhost''\<rparr>])
   \<and> (\<exists>es. trace (snd (create ''<h1>hi</h1>'' (Some 0) fineEnv
                        [emptyOptions\<lparr>host := Some ''localhost''\<rparr>]))
             = Issued (New (Some ''localhost'') None) # es)"
proof -
  have hyp: "\<not> launches (copyOf (Some 0) [emptyOptions\<lparr>host := Some ''localhost''\<rparr>])"
    by (simp add: launches_def copyOf_def deref_def emptyOptions_def truthyString_def)
  have f: "host (copyOf (Some 0) [emptyOptions\<lparr>host := Some ''localhost''\<rparr>]) = Some ''localhost''"
    "port (copyOf (Some 0) [emptyOptions\<lparr>host := Some ''localhost''\<rparr>]) = None"
    by (simp_all add: copyOf_def deref_def emptyOptions_def)
  show ?thesis
    using hyp create_launches_iff [of "''<h1>hi</h1>''" "Some 0" fineEnv
        "[emptyOptions\<lparr>host := Some ''localhost''\<rparr>]"]
    by (simp add: f)
qed

text \<open>
  C8 as stated fails when a port is present but is 0 (or a host is present but empty):
  line 38 tests truthiness, so a process is launched although the options name a port.
\<close>

theorem create_launches_port_zero_counterexample:
  "port (copyOf (Some 0) [emptyOptions\<lparr>port := Some 0\<rparr>]) = Some 0
   \<and> Issued (Launch (Some 0) None DEFAULT_CHROME_FLAGS)
       \<in> set (trace (snd (create ''<h1>hi</h1>'' (Some 0) fineEnv [emptyOptions\<lparr>port := Some 0\<rparr>])))"
  by (simp add: run_defs fineEnv_def copyOf_def)

lemma endsI:
  assumes "\<And>s r s'. P s \<Longrightarrow> m s = (r, s') \<Longrightarrow> (case r of Inl e \<Rightarrow> X e s' | Inr v \<Rightarrow> Y v s')"
  shows "ends P m Y X"
  unfolding ends_def using assms by (rule validI)

lemma endsD:
  assumes "ends P m Y X" and "P s" and "m s = (r, s')"
  shows "case r of Inl e \<Rightarrow> X e s' | Inr v \<Rightarrow> Y v s'"
  using validD [OF assms(1) [unfolded ends_def] assms(2,3)] .

lemma keeps_ends: "keeps N X m = ends N m (\<lambda>v. N) X"
  by (simp add: keeps_def ends_def)

lemma ends_weaken:
  assumes "ends P' m Y' X'" and "\<And>s. P s \<Longrightarrow> P' s" and "\<And>v s. Y' v s \<Longrightarrow> Y v s"
    and "\<And>e s. X' e s \<Longrightarrow> X e s"
  shows "ends P m Y X"
proof (rule endsI)
  fix s r s' assume p: "P s" and run: "m s = (r, s')"
  have "case r of Inl e \<Rightarrow> X' e s' | Inr v \<Rightarrow> Y' v s'"
    using endsD [OF assms(1) _ run] assms(2) p by blast
  then show "case r of Inl e \<Rightarrow> X e s' | Inr v \<Rightarrow> Y v s'"
    using assms(3,4) by (cases r) auto
qed

lemma ends_andThen:
  assumes m: "ends P m R X" and f: "\<And>v. ends (R v) (f v) Y X"
  shows "ends P (andThen m f) Y X"
proof (rule endsI)
  fix s r s' assume p: "P s" and run: "andThen m f s = (r, s')"
  obtain r1 s1 where ms: "m s = (r1, s1)" by (cases "m s")
  show "case r of Inl e \<Rightarrow> X e s' | Inr v \<Rightarrow> Y v s'"
  proof (cases r1)
    case (Inl e)
    then show ?thesis using endsD [OF m p ms] run ms by (auto simp add: andThen_def)
  next
    case (Inr v)
    then have "R v s1" using endsD [OF m p ms] by simp
    moreover have "f v s1 = (r, s')" using run ms Inr by (simp add: andThen_def)
    ultimately show ?thesis using endsD [OF f] by blast
  qed
qed

lemma ends_tryFinally:
  assumes m: "ends P m Y X"
    and fy: "\<And>v. ends (Y v) fin (\<lambda>u. Y' v) X'"
    and fx: "\<And>e. ends (X e) fin (\<lambda>u. X' e) X'"
  shows "ends P (tryFinally m fin) Y' X'"
proof (rule endsI)
  fix s r s' assume p: "P s" and run: "tryFinally m fin s = (r, s')"
  obtain r1 s1 where ms: "m s = (r1, s1)" by (cases "m s")
  obtain r2 s2 where fs: "fin s1 = (r2, s2)" by (cases "fin s1")
  have rs: "(r, s') = (case r2 of Inl e \<Rightarrow> (Inl e, s2) | Inr u \<Rightarrow> (r1, s2))"
    using run ms fs by (simp add: tryFinally_def)
  show "case r of Inl e \<Rightarrow> X' e s' | Inr v \<Rightarrow> Y' v s'"
  proof (cases r1)
    case (Inl e)
    then have "X e s1" using endsD [OF m p ms] by simp
    then show ?thesis using endsD [OF fx _ fs] rs Inl by (cases r2) auto
  next
    case (Inr v)
    then have "Y v s1" using endsD [OF m p ms] by simp
    then show ?thesis using endsD [OF fy _ fs] rs Inr by (cases r2) auto
  qed
qed

lemma ends_withOptions: "(\<And>opts. ends P (f opts) Y X) \<Longrightarrow> ends P (withOptions a f) Y X"
  unfolding ends_def valid_def withOptions_def by simp

lemma ends_succeed: "(\<And>s. P s \<Longrightarrow> Y v s) \<Longrightarrow> ends P (succeed v) Y X"
  unfolding ends_def valid_def succeed_def by simp

lemma ends_if: "ends P m1 Y X \<Longrightarrow> ends P m2 Y X \<Longrightarrow> ends P (if c then m1 else m2) Y X"
  by simp

lemma ends_case_option:
  "ends P m1 Y X \<Longrightarrow> (\<And>y. ends P (m2 y) Y X) \<Longrightarrow>
   ends P (case x of None \<Rightarrow> m1 | Some y \<Rightarrow> m2 y) Y X"
  by (cases x) simp_all

lemma ends_update:
  assumes "\<And>s. P s \<Longrightarrow> Y v (g s)"
  shows "ends P (\<lambda>s. (Inr v, g s)) Y X"
  by (rule endsI) (auto simp add: assms)

lemma ends_invoke:
  assumes "\<And>s. P s \<Longrightarrow> Y () (emit (Issued c) s)"
  shows "ends P (invoke c) Y X"
  by (rule endsI) (auto simp add: invoke_def assms)

lemma ends_guard:
  assumes "\<And>s. P s \<Longrightarrow> flagSet a s \<Longrightarrow> X Timeout (emit GuardFailed s)"
    and "\<And>s. P s \<Longrightarrow> \<not> flagSet a s \<Longrightarrow> Y () s"
  shows "ends P (throwIfCanceled a) Y X"
  by (rule endsI) (auto simp add: throwIfCanceled_def flagSet_def assms split: if_splits)

lemma ends_await:
  assumes st: "steady ok N" and i: "ok (Issued c)" and se: "\<And>t. ok (Settled c t)"
    and ext: "\<And>s m. fst r = Inl m \<Longrightarrow> N s \<Longrightarrow> X (External c m) s"
  shows "ends N (await c r) (\<lambda>v. N) X"
  using keeps_await [where ok = ok and N = N and c = c and X = X and r = r, OF st i se ext]
  by (simp add: keeps_ends)

lemma ends_guard_keep:
  assumes "\<And>s. N s \<Longrightarrow> flagSet a s \<Longrightarrow> X Timeout (emit GuardFailed s)"
  shows "ends N (throwIfCanceled a) (\<lambda>u. N) X"
  by (rule ends_guard) (simp_all add: assms)

lemma generate_ends:
  assumes st1: "steady (calls firstCall) N1"
    and guard1: "\<And>s. N1 s \<Longrightarrow> flagSet a s \<Longrightarrow> X Timeout (emit GuardFailed s)"
    and ext1: "\<And>s c m. N1 s \<Longrightarrow> X (External c m) s"
    and join: "ends N1 (awaitAll (Navigate (navigationUrl html)) (navigate env)
                          LoadEventFired (loadEventFired env)) (\<lambda>u. N2) X"
    and after: "ends N2 (afterNavigate a env) (\<lambda>u. N3) X"
    and print: "\<And>po. ends N3 (await (PrintToPDF po) (printToPDF env)) (\<lambda>pdf. N4) X"
    and guard4: "\<And>s. N4 s \<Longrightarrow> flagSet a s \<Longrightarrow> X Timeout (emit GuardFailed s)"
    and final: "\<And>s pdf. N4 s \<Longrightarrow> \<not> flagSet a s \<Longrightarrow> Y pdf s"
    and finX: "\<And>e s. X e s \<Longrightarrow> X e (emit (Issued ClientClose) s)"
    and finY: "\<And>v s. Y v s \<Longrightarrow> Y v (emit (Issued ClientClose) s)"
  shows "ends N1 (generate html a tab env) Y X"
proof -
  have g1: "ends N1 (throwIfCanceled a) (\<lambda>u. N1) X"
    by (rule ends_guard_keep) (rule guard1)
  have con: "ends N1 (await (Connect tab) (cdp env)) (\<lambda>client. N1) X"
    by (rule ends_await [OF st1]) (simp_all add: calls_def eventCall_def firstCall_def ext1)
  have stb: "steady (calls beforeNavigateCall) N1"
    by (rule steady_mono [OF st1])
       (auto simp add: calls_def firstCall_def beforeNavigateCall_def eventCall_def
             split: event.splits call.splits)
  have bef: "ends N1 (beforeNavigate a env) (\<lambda>u. N1) X"
    using beforeNavigate_keeps [of N1 a X env, OF stb] guard1 ext1
    by (simp add: keeps_ends flagSet_def)
  have pr: "ends N3 (withOptions a (\<lambda>opts. await (PrintToPDF (printOptions opts)) (printToPDF env)))
              (\<lambda>pdf. N4) X"
    by (rule ends_withOptions) (rule print)
  have g4: "\<And>pdf. ends N4 (throwIfCanceled a) (\<lambda>u. Y pdf) X"
    by (rule ends_guard) (simp_all add: guard4 final)
  have ret: "\<And>pdf. ends (Y pdf) (succeed pdf) Y X"
    by (rule ends_succeed)
  have body: "ends N1
     (andThen (beforeNavigate a env) (\<lambda>_.
      andThen (awaitAll (Navigate (navigationUrl html)) (navigate env)
                        LoadEventFired (loadEventFired env)) (\<lambda>_.
      andThen (afterNavigate a env) (\<lambda>_.
      andThen (withOptions a (\<lambda>opts.
                 await (PrintToPDF (printOptions opts)) (printToPDF env))) (\<lambda>pdf.
      andThen (throwIfCanceled a) (\<lambda>_.
      succeed pdf)))))) Y X"
    by (rule ends_andThen [OF bef] ends_andThen [OF join] ends_andThen [OF after]
          ends_andThen [OF pr] ends_andThen [OF g4] ret)+
  have fy: "\<And>v. ends (Y v) (invoke ClientClose) (\<lambda>u. Y v) X"
    by (rule ends_invoke) (rule finY)
  have fx: "\<And>e. ends (X e) (invoke ClientClose) (\<lambda>u. X e) X"
    by (rule ends_invoke) (rule finX)
  show ?thesis
    unfolding generate_def
    by (rule ends_andThen [OF g1] ends_andThen [OF con] ends_tryFinally [OF body fy fx])+
qed

lemma session_ends:
  assumes st: "steady (calls openingCall) N"
    and port: "\<And>s p. N s \<Longrightarrow> N (assign a (\<lambda>opts. opts\<lparr>port := Some p\<rparr>) s)"
    and guard: "\<And>s. N s \<Longrightarrow> flagSet a s \<Longrightarrow> X Timeout (emit GuardFailed s)"
    and ext: "\<And>s c m. N s \<Longrightarrow> X (External c m) s"
    and gen: "\<And>tab. ends N (generate html a tab env) Y X"
    and tdX: "\<And>e. steady (calls teardownCall) (X e)"
    and tdY: "\<And>v. steady (calls teardownCall) (Y v)"
    and xext: "\<And>s e c m. teardownFails env c m \<Longrightarrow> X e s \<Longrightarrow> X (External c m) s"
    and yext: "\<And>s v c m. teardownFails env c m \<Longrightarrow> Y v s \<Longrightarrow> X (External c m) s"
  shows "ends N (session html a env) Y X"
proof -
  have g: "ends N (throwIfCanceled a) (\<lambda>u. N) X"
    by (rule ends_guard_keep) (rule guard)
  have lc: "ends N (launchChrome a env) (\<lambda>chrome. N) X"
    unfolding launchChrome_def
    by (rule ends_withOptions ends_andThen [where R = "\<lambda>chrome. N"] ends_await [OF st] ends_update
        | simp add: calls_def eventCall_def openingCall_def ext port)+
  have pre: "ends N
      (withOptions a (\<lambda>opts.
         if \<not> truthyString (host opts) \<and> \<not> truthyNumber (port opts)
         then andThen (throwIfCanceled a) (\<lambda>_.
              andThen (launchChrome a env) (\<lambda>chrome. succeed (Some chrome)))
         else succeed None)) (\<lambda>chrome. N) X"
    by (rule ends_withOptions ends_if ends_andThen [OF g] ends_andThen [OF lc] ends_succeed
        | simp)+
  have new: "ends N (withOptions a (\<lambda>opts. await (New (host opts) (port opts)) (cdpNew env)))
               (\<lambda>tab. N) X"
    by (rule ends_withOptions ends_await [OF st]
        | simp add: calls_def eventCall_def openingCall_def ext)+
  have cy: "\<And>tab v. ends (Y v) (await (Close tab) (cdpClose env)) (\<lambda>u. Y v) X"
    by (rule ends_await [OF tdY]) (simp_all add: calls_def eventCall_def teardownCall_def teardownFails_def yext)
  have cx: "\<And>tab e. ends (X e) (await (Close tab) (cdpClose env)) (\<lambda>u. X e) X"
    by (rule ends_await [OF tdX]) (simp_all add: calls_def eventCall_def teardownCall_def teardownFails_def xext)
  have inner: "ends N
      (andThen (withOptions a (\<lambda>opts. await (New (host opts) (port opts)) (cdpNew env))) (\<lambda>tab.
         tryFinally (generate html a tab env) (await (Close tab) (cdpClose env)))) Y X"
    by (rule ends_andThen [OF new] ends_tryFinally [OF gen cy cx])+
  have ky: "\<And>chrome v. ends (Y v)
      (case chrome of Some (ch::int) \<Rightarrow> await Kill (kill env) | None \<Rightarrow> succeed ()) (\<lambda>u. Y v) X"
    by (rule ends_case_option ends_succeed ends_await [OF tdY]
        | simp add: calls_def eventCall_def teardownCall_def teardownFails_def yext)+
  have kx: "\<And>chrome e. ends (X e)
      (case chrome of Some (ch::int) \<Rightarrow> await Kill (kill env) | None \<Rightarrow> succeed ()) (\<lambda>u. X e) X"
    by (rule ends_case_option ends_succeed ends_await [OF tdX]
        | simp add: calls_def eventCall_def teardownCall_def teardownFails_def xext)+
  show ?thesis
    unfolding session_def
    by (rule ends_andThen [OF g] ends_andThen [OF pre] ends_tryFinally [OF inner ky kx])+
qed

lemma snoc_eq_split:
  "(xs @ [e] = pre @ x # post) =
     ((post = [] \<and> xs = pre \<and> e = x) \<or> (\<exists>post'. post = post' @ [e] \<and> xs = pre @ x # post'))"
proof (cases post rule: rev_cases)
  case Nil
  then show ?thesis by auto
next
  case (snoc post' y)
  have "(xs @ [e] = (pre @ x # post') @ [y]) = (xs = pre @ x # post' \<and> e = y)"
    by (simp only: append1_eq_conv)
  then show ?thesis using snoc by auto
qed

lemma waitsAfterJoin_snoc:
  assumes "waitsAfterJoin t" and "e = Issued Wait \<Longrightarrow> joined t"
  shows "waitsAfterJoin (t @ [e])"
  using assms unfolding waitsAfterJoin_def by (auto simp add: snoc_eq_split)

lemma joined_snoc: "joined t \<Longrightarrow> joined (t @ [e])"
  by (auto simp add: joined_def)

lemma no_wait_waitsAfterJoin: "Issued Wait \<notin> set t \<Longrightarrow> waitsAfterJoin t"
  by (auto simp add: waitsAfterJoin_def)

lemma awaitAll_trace:
  assumes "awaitAll c1 r1 c2 r2 s = (r, s')"
  shows "\<exists>es. trace s' = trace s @ Issued c1 # Issued c2 # es
           \<and> (\<forall>e\<in>set es. \<exists>t. e = Settled c1 t \<or> e = Settled c2 t)
           \<and> (r = Inr () \<longrightarrow> (\<exists>t. Settled c1 t \<in> set es) \<and> (\<exists>t. Settled c2 t \<in> set es))"
  using assms
  by (auto simp add: awaitAll_def Let_def split: if_splits sum.splits)

lemma steady_noWait: "steady (calls (\<lambda>c. c \<noteq> Wait)) noWait"
  by (auto simp add: steady_def noWait_def calls_def eventCall_def)

lemma steady_joinedState: "steady (calls (\<lambda>c. True)) joinedState"
  by (auto simp add: steady_def joinedState_def joined_snoc waitsAfterJoin_snoc)

lemma steady_orderly: "steady (calls (\<lambda>c. c \<noteq> Wait)) orderly"
  by (auto simp add: steady_def orderly_def calls_def eventCall_def intro!: waitsAfterJoin_snoc)

lemma noWait_orderly: "noWait s \<Longrightarrow> orderly s"
  by (simp add: noWait_def orderly_def no_wait_waitsAfterJoin)

lemma orderly_guard: "orderly s \<Longrightarrow> orderly (emit GuardFailed s)"
  unfolding orderly_def emit_simps by (rule waitsAfterJoin_snoc) simp_all

lemma orderly_emit: "e \<noteq> Issued Wait \<Longrightarrow> orderly s \<Longrightarrow> orderly (emit e s)"
  unfolding orderly_def emit_simps by (rule waitsAfterJoin_snoc) simp_all

lemma joinedState_emit: "joinedState s \<Longrightarrow> joinedState (emit e s)"
  by (simp add: joinedState_def joined_snoc waitsAfterJoin_snoc)

lemma joinedState_orderly: "joinedState s \<Longrightarrow> orderly s"
  by (simp add: joinedState_def orderly_def)

lemma join_joinedState:
  "ends noWait (awaitAll (Navigate u) r1 LoadEventFired r2) (\<lambda>v. joinedState) (\<lambda>e. orderly)"
proof (rule endsI)
  fix s r s' assume n: "noWait s" and run: "awaitAll (Navigate u) r1 LoadEventFired r2 s = (r, s')"
  obtain es where tr: "trace s' = trace s @ Issued (Navigate u) # Issued LoadEventFired # es"
    and es: "\<forall>e\<in>set es. \<exists>t. e = Settled (Navigate u) t \<or> e = Settled LoadEventFired t"
    and both: "r = Inr () \<longrightarrow> (\<exists>t. Settled (Navigate u) t \<in> set es) \<and> (\<exists>t. Settled LoadEventFired t \<in> set es)"
    using awaitAll_trace [OF run] by blast
  have nw: "noWait s'" using n tr es by (auto simp add: noWait_def)
  show "case r of Inl e \<Rightarrow> orderly s' | Inr v \<Rightarrow> joinedState s'"
  proof (cases r)
    case (Inl e)
    then show ?thesis using nw by (simp add: noWait_orderly)
  next
    case (Inr v)
    then have "joined (trace s')" using both tr by (auto simp add: joined_def)
    then show ?thesis using Inr nw by (simp add: joinedState_def noWait_def no_wait_waitsAfterJoin)
  qed
qed

lemma generate_orderly: "ends noWait (generate html a tab env) (\<lambda>v. orderly) (\<lambda>e. orderly)"
proof (rule generate_ends [where ?N2.0 = joinedState and ?N3.0 = joinedState and ?N4.0 = joinedState])
  show "steady (calls firstCall) noWait"
    by (rule steady_mono [OF steady_noWait])
       (auto simp add: calls_def firstCall_def beforeNavigateCall_def eventCall_def
             split: event.splits call.splits)
  show "ends noWait (awaitAll (Navigate (navigationUrl html)) (navigate env)
                          LoadEventFired (loadEventFired env)) (\<lambda>u. joinedState) (\<lambda>e. orderly)"
    by (rule join_joinedState)
  have w: "steady (calls (\<lambda>c. c = Wait)) joinedState"
    by (rule steady_mono [OF steady_joinedState]) (simp add: calls_def split: option.splits)
  have "keeps joinedState (\<lambda>e. joinedState) (afterNavigate a env)"
    by (rule afterNavigate_keeps [OF w])
       (simp_all add: joinedState_emit)
  then show "ends joinedState (afterNavigate a env) (\<lambda>u. joinedState) (\<lambda>e. orderly)"
    unfolding keeps_ends by (rule ends_weaken) (simp_all add: joinedState_orderly)
  show "ends joinedState (await (PrintToPDF po) (printToPDF env)) (\<lambda>pdf. joinedState) (\<lambda>e. orderly)" for po
    by (rule ends_await [OF steady_joinedState])
       (simp_all add: calls_def eventCall_def joinedState_orderly)
qed (simp_all add: noWait_orderly joinedState_orderly orderly_emit joinedState_emit)

lemma ends_create:
  assumes "ends N (session html (length h) env) Y X" and "N (start options h)"
  shows "case fst (create html options env h) of
           Inl e \<Rightarrow> X e (snd (create html options env h))
         | Inr v \<Rightarrow> Y v (snd (create html options env h))"
  using endsD [OF assms, of "fst (create html options env h)" "snd (create html options env h)"]
  by (simp add: create_def)

lemma session_orderly: "ends noWait (session html a env) (\<lambda>v. orderly) (\<lambda>e. orderly)"
proof (rule session_ends)
  show "steady (calls openingCall) noWait"
    by (rule steady_mono [OF steady_noWait])
       (auto simp add: calls_def openingCall_def eventCall_def split: event.splits call.splits)
  show "steady (calls teardownCall) orderly"
    by (rule steady_mono [OF steady_orderly])
       (auto simp add: calls_def teardownCall_def eventCall_def split: event.splits call.splits)
  then show "steady (calls teardownCall) orderly" .
  show "ends noWait (generate html a tab env) (\<lambda>v. orderly) (\<lambda>e. orderly)" for tab
    by (rule generate_orderly)
qed (simp_all add: noWait_orderly orderly_guard noWait_def)

text \<open>
  C4. In every run, whenever the completion trigger's \<open>wait\<close> is called, the navigate
  command and the load event have both settled before, whatever time each of them takes.
\<close>

theorem create_wait_after_join:
  assumes "trace (snd (create html options env h)) = pre @ Issued Wait # post"
  shows "(\<exists>u tn. Settled (Navigate u) tn \<in> set pre) \<and> (\<exists>tl. Settled LoadEventFired tl \<in> set pre)"
proof -
  have "noWait (start options h)" by (simp add: noWait_def)
  then have "orderly (snd (create html options env h))"
    using ends_create [OF session_orderly, of options h html env] by (auto split: sum.splits)
  then have "joined pre" using assms by (auto simp add: orderly_def waitsAfterJoin_def)
  then show ?thesis by (simp add: joined_def)
qed

theorem create_wait_after_join_witness:
  "trace (snd (create ''https://example.test'' (Some 0) fineEnv [remoteWithTrigger]))
     = [Issued (New (Some ''localhost'') None), Settled (New (Some ''localhost'') None) 1,
        Issued (Connect ''tab1''), Settled (Connect ''tab1'') 2,
        Issued PageEnable, Issued RuntimeEnable, Settled PageEnable 3, Settled RuntimeEnable 4,
        Issued (Navigate ''https://example.test''), Issued LoadEventFired,
        Settled LoadEventFired 6, Settled (Navigate ''https://example.test'') 7]
       @ Issued Wait #
       [Settled Wait 11, Issued (PrintToPDF None), Settled (PrintToPDF None) 17,
        Issued ClientClose, Issued (Close ''tab1''), Settled (Close ''tab1'') 18]
   \<and> (\<exists>u tn. Settled (Navigate u) tn \<in> set
        [Issued (New (Some ''localhost'') None), Settled (New (Some ''localhost'') None) 1,
        Issued (Connect ''tab1''), Settled (Connect ''tab1'') 2,
        Issued PageEnable, Issued RuntimeEnable, Settled PageEnable 3, Settled RuntimeEnable 4,
        Issued (Navigate ''https://example.test''), Issued LoadEventFired,
        Settled LoadEventFired 6, Settled (Navigate ''https://example.test'') 7])"
proof -
  have run: "trace (snd (create ''https://example.test'' (Some 0) fineEnv [remoteWithTrigger]))
     = [Issued (New (Some ''localhost'') None), Settled (New (Some ''localhost'') None) 1,
        Issued (Connect ''tab1''), Settled (Connect ''tab1'') 2,
        Issued PageEnable, Issued RuntimeEnable, Settled PageEnable 3, Settled RuntimeEnable 4,
        Issued (Navigate ''https://example.test''), Issued LoadEventFired,
        Settled LoadEventFired 6, Settled (Navigate ''https://example.test'') 7]
       @ Issued Wait #
       [Settled Wait 11, Issued (PrintToPDF None), Settled (PrintToPDF None) 17,
        Issued ClientClose, Issued (Close ''tab1''), Settled (Close ''tab1'') 18]"
    by (simp add: run_defs fineEnv_def remoteWithTrigger_def navigationUrl_def test_def
          schemePattern_def canonicalize_def)
  show ?thesis using run create_wait_after_join [OF run] by blast
qed

lemma afterNavigate_run:
  "afterNavigate a env s =
     (if flagSet a s then (Inl Timeout, emit GuardFailed s)
      else case completionTrigger (deref (heap s) a) of
             None \<Rightarrow> (Inr (), s)
           | Some tr \<Rightarrow>
               (let s1 = emit (Settled Wait (clock s + snd (wait env)))
                           (tick (snd (wait env)) (emit (Issued Wait) s))
                in case fst (wait env) of
                     Inl m \<Rightarrow> (Inl (External Wait m), s1)
                   | Inr w \<Rightarrow>
                       if flagSet a s1 then (Inl Timeout, emit GuardFailed s1)
                       else (case w of
                               None \<Rightarrow> (Inr (), s1)
                             | Some x \<Rightarrow>
                                 if exceptionDetails x
                                 then (Inl (Evaluation (resultValue x)), s1)
                                 else (Inr (), s1))))"
  by (simp add: afterNavigate_def andThen_def withOptions_def throwIfCanceled_def await_def
        succeed_def throw_def flagSet_def Let_def
      split: option.splits sum.splits)

lemma timed_emit [simp]: "timed T a (emit e s) = timed T a s"
  by (simp add: timed_def)

lemma timed_tick: "timed T a s \<Longrightarrow> timed T a (tick d s)"
  by (auto simp add: timed_def tick_def assign_def deref_def Let_def split: if_splits)

lemma timed_port: "timed T a s \<Longrightarrow> timed T a (assign a (\<lambda>opts. opts\<lparr>port := p\<rparr>) s)"
  by (auto simp add: timed_def deref_assign split: if_splits)

lemma timed_flag: "timed T a s \<Longrightarrow> flagSet a s = (T < int (clock s))"
  by (auto simp add: timed_def flagSet_def split: if_splits)

lemma timed_start:
  assumes "timeout (copyOf options h) = Some T" and "0 \<le> T"
  shows "timed T (length h) (start options h)"
  using assms by (simp add: timed_def start_myOptions start_timer copyOf_def)

lemma steady_beforeWait:
  "steady (calls (\<lambda>c. c \<noteq> Wait \<and> (\<forall>po. c \<noteq> PrintToPDF po))) beforeWait"
  by (auto simp add: steady_def beforeWait_def unwaited_def unguarded_def unprinted_def
        calls_def eventCall_def split: event.splits)

lemma steady_notWaited: "steady (calls (\<lambda>c. c \<noteq> Wait)) notWaited"
  by (auto simp add: steady_def notWaited_def unwaited_def unguarded_def
        calls_def eventCall_def split: event.splits)

lemma steady_evalFailed:
  "steady (calls (\<lambda>c. c \<noteq> Wait \<and> (\<forall>po. c \<noteq> PrintToPDF po))) (evalFailed env v e)"
  by (auto simp add: steady_def evalFailed_def verdict_def unwaited_def unprinted_def
        calls_def eventCall_def split: event.splits)

lemma afterNavigate_evalFailed:
  assumes "fst (wait env) = Inr (Some w)" and "exceptionDetails w"
  shows "ends beforeWait (afterNavigate a env) (\<lambda>u. beforeWait) (evalFailed env (resultValue w))"
proof (rule endsI)
  fix s r s' assume n: "beforeWait s" and run: "afterNavigate a env s = (r, s')"
  show "case r of Inl e \<Rightarrow> evalFailed env (resultValue w) e s' | Inr v \<Rightarrow> beforeWait s'"
    using run n assms
    by (auto simp add: afterNavigate_run Let_def beforeWait_def evalFailed_def verdict_def
          unwaited_def unguarded_def unprinted_def eventCall_def
        split: if_splits option.splits)
qed

lemma generate_evalFailed:
  assumes w: "fst (wait env) = Inr (Some w)" and x: "exceptionDetails w"
  shows "ends beforeWait (generate html a tab env) (\<lambda>pdf. unwaited) (evalFailed env (resultValue w))"
proof (rule generate_ends [where ?N2.0 = beforeWait and ?N3.0 = beforeWait and ?N4.0 = notWaited])
  show "steady (calls firstCall) beforeWait"
    by (rule steady_mono [OF steady_beforeWait])
       (auto simp add: calls_def firstCall_def beforeNavigateCall_def eventCall_def
             split: event.splits call.splits)
  have "keeps beforeWait (evalFailed env (resultValue w))
          (awaitAll (Navigate (navigationUrl html)) (navigate env) LoadEventFired (loadEventFired env))"
    by (rule keeps_awaitAll [OF steady_beforeWait])
       (simp_all add: calls_def eventCall_def evalFailed_def beforeWait_def)
  then show "ends beforeWait (awaitAll (Navigate (navigationUrl html)) (navigate env)
                 LoadEventFired (loadEventFired env)) (\<lambda>u. beforeWait) (evalFailed env (resultValue w))"
    by (simp add: keeps_ends)
  show "ends beforeWait (afterNavigate a env) (\<lambda>u. beforeWait) (evalFailed env (resultValue w))"
    by (rule afterNavigate_evalFailed [OF w x])
  show "ends beforeWait (await (PrintToPDF po) (printToPDF env)) (\<lambda>pdf. notWaited)
          (evalFailed env (resultValue w))" for po
  proof (rule ends_weaken)
    show "ends notWaited (await (PrintToPDF po) (printToPDF env)) (\<lambda>pdf. notWaited)
            (evalFailed env (resultValue w))"
      by (rule ends_await [OF steady_notWaited])
         (simp_all add: calls_def eventCall_def evalFailed_def notWaited_def)
  qed (simp_all add: beforeWait_def notWaited_def)
qed (auto simp add: beforeWait_def notWaited_def evalFailed_def verdict_def unwaited_def
       unprinted_def eventCall_def)

lemma session_evalFailed:
  assumes w: "fst (wait env) = Inr (Some w)" and x: "exceptionDetails w"
  shows "ends beforeWait (session html a env) (\<lambda>pdf. unwaited) (evalFailed env (resultValue w))"
proof (rule session_ends)
  show "steady (calls openingCall) beforeWait"
    by (rule steady_mono [OF steady_beforeWait])
       (auto simp add: calls_def openingCall_def eventCall_def split: event.splits call.splits)
  show "steady (calls teardownCall) (evalFailed env (resultValue w) e)" for e
    by (rule steady_mono [OF steady_evalFailed])
       (auto simp add: calls_def teardownCall_def eventCall_def split: event.splits call.splits)
  show "steady (calls teardownCall) unwaited"
    by (auto simp add: steady_def unwaited_def calls_def teardownCall_def eventCall_def
          split: event.splits call.splits)
  show "ends beforeWait (generate html a tab env) (\<lambda>pdf. unwaited) (evalFailed env (resultValue w))"
    for tab
    by (rule generate_evalFailed [OF w x])
qed (auto simp add: beforeWait_def evalFailed_def verdict_def unwaited_def unprinted_def
       unguarded_def eventCall_def)

text \<open>
  C3, as amended. When the completion trigger's \<open>wait\<close> is called and returns an outcome
  with \<open>exceptionDetails\<close>, the print call is never issued and \<open>create\<close> rejects: with
  the error that carries the remote exception's message when no guard found the
  cancellation flag set, with the timeout error when a guard did, and with the error of
  a failed teardown step when closing the tab or killing the process fails.
\<close>

theorem create_evaluation_failure:
  assumes "Issued Wait \<in> set (trace (snd (create html options env h)))"
    and "fst (wait env) = Inr (Some w)" and "exceptionDetails w"
  shows "(\<forall>po. Issued (PrintToPDF po) \<notin> set (trace (snd (create html options env h))))
       \<and> ((fst (create html options env h) = Inl (Evaluation (resultValue w))
            \<and> GuardFailed \<notin> set (trace (snd (create html options env h))))
          \<or> (fst (create html options env h) = Inl Timeout
            \<and> GuardFailed \<in> set (trace (snd (create html options env h))))
          \<or> (\<exists>c m. fst (create html options env h) = Inl (External c m) \<and> teardownFails env c m))"
proof -
  have "beforeWait (start options h)"
    by (simp add: beforeWait_def unwaited_def unguarded_def unprinted_def)
  then have "case fst (create html options env h) of
           Inl e \<Rightarrow> evalFailed env (resultValue w) e (snd (create html options env h))
         | Inr v \<Rightarrow> unwaited (snd (create html options env h))"
    using ends_create [OF session_evalFailed [OF assms(2,3)]] by blast
  moreover have "eventCall (Issued Wait) = Some Wait" by (simp add: eventCall_def)
  then have "\<not> unwaited (snd (create html options env h))"
    using assms(1) unfolding unwaited_def by blast
  ultimately show ?thesis
    by (auto simp add: evalFailed_def verdict_def unprinted_def split: sum.splits)
qed

theorem create_evaluation_failure_witness:
  "Issued Wait \<in> set (trace (snd (create ''<h1>hi</h1>'' (Some 0) triggerEnv [remoteWithTrigger])))
   \<and> fst (wait triggerEnv) = Inr (Some \<lparr>exceptionDetails = True, resultValue = ''boom''\<rparr>)
   \<and> exceptionDetails \<lparr>exceptionDetails = True, resultValue = ''boom''\<rparr>
   \<and> (\<forall>po. Issued (PrintToPDF po)
          \<notin> set (trace (snd (create ''<h1>hi</h1>'' (Some 0) triggerEnv [remoteWithTrigger]))))
   \<and> fst (create ''<h1>hi</h1>'' (Some 0) triggerEnv [remoteWithTrigger]) = Inl (Evaluation ''boom'')"
proof -
  have run: "Issued Wait \<in> set (trace (snd (create ''<h1>hi</h1>'' (Some 0) triggerEnv [remoteWithTrigger])))"
    by (simp add: run_defs triggerEnv_def fineEnv_def remoteWithTrigger_def)
  have res: "fst (create ''<h1>hi</h1>'' (Some 0) triggerEnv [remoteWithTrigger]) = Inl (Evaluation ''boom'')"
    by (simp add: run_defs triggerEnv_def fineEnv_def remoteWithTrigger_def)
  have w: "fst (wait triggerEnv) = Inr (Some \<lparr>exceptionDetails = True, resultValue = ''boom''\<rparr>)"
    by (simp add: triggerEnv_def)
  have x: "exceptionDetails \<lparr>exceptionDetails = True, resultValue = ''boom''\<rparr>" by simp
  show ?thesis using run res w x create_evaluation_failure [OF run w x] by blast
qed

text \<open>
  C3 as stated fails when the timer fires while \<open>wait\<close> is pending: with a timeout of
  8 ms, \<open>wait\<close> is called at 7 ms and returns its failed evaluation at 11 ms; the guard
  of line 131 runs before the \<open>throw\<close> of line 132, and \<open>create\<close> rejects with the
  timeout error, which does not carry the remote exception's message.
\<close>

theorem create_evaluation_failure_counterexample:
  "Issued Wait \<in> set (trace (snd (create ''<h1>hi</h1>'' (Some 0) triggerEnv [lateTrigger])))
   \<and> fst (wait triggerEnv) = Inr (Some \<lparr>exceptionDetails = True, resultValue = ''boom''\<rparr>)
   \<and> fst (create ''<h1>hi</h1>'' (Some 0) triggerEnv [lateTrigger]) = Inl Timeout
   \<and> message Timeout \<noteq> ''boom''"
  by (simp add: run_defs triggerEnv_def fineEnv_def lateTrigger_def remoteWithTrigger_def)

lemma steady_timedUnwaited: "steady (calls (\<lambda>c. c \<noteq> Wait)) (timedUnwaited T a)"
  by (auto simp add: steady_def timedUnwaited_def timed_tick unwaited_def
        calls_def eventCall_def split: event.splits)

lemma steady_waitedLate: "steady (calls (\<lambda>c. c \<noteq> Wait)) (waitedLate env T e)"
  by (auto simp add: steady_def waitedLate_def unwaited_def calls_def eventCall_def
      split: event.splits)

lemma afterNavigate_waitedLate:
  assumes "fst (wait env) = Inr (Some w)" and "exceptionDetails w"
  shows "ends (timedUnwaited T a) (afterNavigate a env) (\<lambda>u. timedUnwaited T a) (waitedLate env T)"
proof (rule endsI)
  fix s r s' assume n: "timedUnwaited T a s" and run: "afterNavigate a env s = (r, s')"
  let ?s1 = "emit (Settled Wait (clock s + snd (wait env)))
               (tick (snd (wait env)) (emit (Issued Wait) s))"
  have t1: "timed T a ?s1" using n by (simp add: timedUnwaited_def timed_tick)
  have f1: "flagSet a ?s1 = (T < int (clock s + snd (wait env)))"
    using timed_flag [OF t1] by simp
  have only: "\<And>t. Settled Wait t \<in> set (trace ?s1) \<Longrightarrow> t = clock s + snd (wait env)"
    using n by (auto simp add: timedUnwaited_def unwaited_def eventCall_def)
  show "case r of Inl e \<Rightarrow> waitedLate env T e s' | Inr v \<Rightarrow> timedUnwaited T a s'"
  proof (cases "flagSet a s")
    case True
    then have "r = Inl Timeout" using run by (simp add: afterNavigate_run)
    then show ?thesis by (simp add: waitedLate_def)
  next
    case False
    show ?thesis
    proof (cases "completionTrigger (deref (heap s) a)")
      case None
      then have "r = Inr ()" "s' = s" using run False by (simp_all add: afterNavigate_run)
      then show ?thesis using n by simp
    next
      case (Some tr)
      show ?thesis
      proof (cases "flagSet a ?s1")
        case True
        then have "r = Inl Timeout" using run False Some assms
          by (simp add: afterNavigate_run Let_def)
        then show ?thesis by (simp add: waitedLate_def)
      next
        case nf: False
        then have rs: "r = Inl (Evaluation (resultValue w))" "s' = ?s1"
          using run False Some assms by (simp_all add: afterNavigate_run Let_def)
        have "\<And>t. Settled Wait t \<in> set (trace ?s1) \<Longrightarrow> \<not> T < int t"
          using only nf f1 by blast
        then show ?thesis unfolding rs by (simp add: waitedLate_def)
      qed
    qed
  qed
qed

lemma generate_unfold:
  "generate html a tab env =
     andThen (throwIfCanceled a) (\<lambda>_.
     andThen (await (Connect tab) (cdp env)) (\<lambda>client.
       tryFinally (generateBody html a env) (invoke ClientClose)))"
  by (simp add: generate_def generateBody_def)

lemma generateBody_keeps:
  assumes st: "steady (calls (bodyCall html)) N"
    and guard: "\<And>s. N s \<Longrightarrow> canceled (deref (heap s) a) = Some True \<Longrightarrow> X Timeout (emit GuardFailed s)"
    and ext: "\<And>s c m. N s \<Longrightarrow> X (External c m) s"
    and eval: "\<And>s v. N s \<Longrightarrow> X (Evaluation v) s"
  shows "keeps N X (generateBody html a env)"
proof -
  have b: "steady (calls beforeNavigateCall) N"
    by (rule steady_mono [OF st])
       (auto simp add: calls_def bodyCall_def generateCall_def beforeNavigateCall_def eventCall_def
             split: event.splits call.splits)
  have w: "steady (calls (\<lambda>c. c = Wait)) N"
    by (rule steady_mono [OF st])
       (auto simp add: calls_def bodyCall_def generateCall_def eventCall_def split: event.splits)
  show ?thesis
    unfolding generateBody_def
    by (rule keeps_andThen keeps_withOptions keeps_succeed keeps_guard
          beforeNavigate_keeps [OF b] afterNavigate_keeps [OF w]
          keeps_await [OF st] keeps_awaitAll [OF st]
        | simp add: guard ext eval calls_def eventCall_def generateCall_def bodyCall_def)+
qed

lemma generateBody_events:
  assumes "generateBody html a env s = (r, s')"
  shows "\<exists>es. trace s' = trace s @ es
           \<and> (\<forall>e\<in>set es. e = GuardFailed \<or> calls (bodyCall html) e)"
proof -
  define N where "N = (\<lambda>s1::state. \<exists>es. trace s1 = trace s @ es
       \<and> (\<forall>e\<in>set es. e = GuardFailed \<or> calls (bodyCall html) e))"
  have st: "steady (calls (bodyCall html)) N"
    by (auto simp add: steady_def N_def)
  have "keeps N (\<lambda>e. N) (generateBody html a env)"
    by (rule generateBody_keeps [OF st]) (auto simp add: N_def)
  moreover have "N s" by (simp add: N_def)
  ultimately have "N s'" using keepsD assms by (fastforce split: sum.splits)
  then show ?thesis by (simp add: N_def)
qed

lemma bodyEvents_generateEvents:
  assumes "\<forall>e\<in>set es. e = GuardFailed \<or> calls (bodyCall html) e"
  shows "generateEvents html es" and "Issued ClientClose \<notin> set es"
proof -
  show "generateEvents html es"
    using assms unfolding generateEvents_def
    by (auto simp add: calls_def bodyCall_def split: option.splits)
  show "Issued ClientClose \<notin> set es"
  proof
    assume "Issued ClientClose \<in> set es"
    then have "Issued ClientClose = GuardFailed \<or> calls (bodyCall html) (Issued ClientClose)"
      using assms by blast
    then show False by (simp add: calls_def eventCall_def bodyCall_def)
  qed
qed

lemma generate_shape:
  "\<exists>es. trace (snd (generate html a tab env s)) = trace s @ es
        \<and> generateEvents html es \<and> clientClosed tab env es"
proof (cases "canceled (deref (heap s) a) = Some True")
  case True
  then have "generate html a tab env s = (Inl Timeout, emit GuardFailed s)"
    by (simp add: generate_unfold andThen_def throwIfCanceled_def)
  then have "trace (snd (generate html a tab env s)) = trace s @ [GuardFailed]" by simp
  moreover have "generateEvents html [GuardFailed]" by (simp add: generateEvents_def)
  moreover have "clientClosed tab env [GuardFailed]" by (simp add: clientClosed_def)
  ultimately show ?thesis by blast
next
  case False
  let ?c = "Connect tab"
  let ?s1 = "emit (Settled ?c (clock s + snd (cdp env))) (tick (snd (cdp env)) (emit (Issued ?c) s))"
  have con: "generateEvents html [Issued ?c, Settled ?c t]" for t
    by (simp add: generateEvents_def calls_def eventCall_def generateCall_def)
  show ?thesis
  proof (cases "fst (cdp env)")
    case (Inl m)
    then have "generate html a tab env s = (Inl (External ?c m), ?s1)"
      using False by (simp add: generate_unfold andThen_def throwIfCanceled_def await_def Let_def)
    then have "trace (snd (generate html a tab env s))
        = trace s @ [Issued ?c, Settled ?c (clock s + snd (cdp env))]"
      by simp
    moreover have "clientClosed tab env [Issued ?c, Settled ?c (clock s + snd (cdp env))]"
      using Inl by (simp add: clientClosed_def)
    ultimately show ?thesis using con by blast
  next
    case (Inr u)
    obtain r1 s2 where body: "generateBody html a env ?s1 = (r1, s2)"
      by (cases "generateBody html a env ?s1")
    obtain bes where bes: "trace s2 = trace ?s1 @ bes"
      and ok: "\<forall>e\<in>set bes. e = GuardFailed \<or> calls (bodyCall html) e"
      using generateBody_events [OF body] by blast
    have "snd (generate html a tab env s) = emit (Issued ClientClose) s2"
      using False Inr body
      by (simp add: generate_unfold andThen_def throwIfCanceled_def await_def Let_def
            tryFinally_def invoke_def)
    then have tr: "trace (snd (generate html a tab env s))
        = trace s @ ([Issued ?c, Settled ?c (clock s + snd (cdp env))] @ bes) @ [Issued ClientClose]"
      using bes by simp
    let ?body = "[Issued ?c, Settled ?c (clock s + snd (cdp env))] @ bes"
    have nb: "Issued ClientClose \<notin> set ?body"
      using bodyEvents_generateEvents(2) [OF ok] by simp
    have "generateEvents html (?body @ [Issued ClientClose])"
      using bodyEvents_generateEvents(1) [OF ok] con [of "clock s + snd (cdp env)"]
      by (auto simp add: generateEvents_def calls_def eventCall_def generateCall_def)
    moreover have "clientClosed tab env (?body @ [Issued ClientClose])"
      unfolding clientClosed_def using nb Inr by auto
    ultimately show ?thesis using tr by blast
  qed
qed

lemma generate_shapeE:
  obtains es where "trace (snd (generate html a tab env s)) = trace s @ es"
    and "generateEvents html es" and "clientClosed tab env es"
  using generate_shape [of html a tab env s] by blast

lemma create_run_attach:
  assumes "\<not> launches (copyOf options h)" and "fst (cdpNew env) = Inr tab"
  shows "\<exists>es t0 t1. trace (snd (create html options env h))
           = [Issued (New (host (copyOf options h)) (port (copyOf options h))),
              Settled (New (host (copyOf options h)) (port (copyOf options h))) t0]
             @ es @ [Issued (Close tab), Settled (Close tab) t1]
         \<and> generateEvents html es \<and> clientClosed tab env es"
proof -
  let ?new = "New (host (copyOf options h)) (port (copyOf options h))"
  let ?s = "emit (Settled ?new (snd (cdpNew env)))
              (tick (snd (cdpNew env)) (emit (Issued ?new) (start options h)))"
  obtain es where es: "trace (snd (generate html (length h) tab env ?s)) = trace ?s @ es"
    and ok: "generateEvents html es" and cl: "clientClosed tab env es"
    by (rule generate_shapeE)
  have "trace (snd (create html options env h))
      = trace (snd (generate html (length h) tab env ?s))
        @ [Issued (Close tab),
           Settled (Close tab) (clock (snd (generate html (length h) tab env ?s)) + snd (cdpClose env))]"
    using assms
    by (simp add: session_defs split: prod.splits sum.splits)
  then show ?thesis using es ok cl by simp
qed

lemma create_run_launch:
  assumes "launches (copyOf options h)" and "fst (launch env) = Inr p"
    and "fst (cdpNew env) = Inr tab"
  shows "\<exists>es t t0 t1 t2. trace (snd (create html options env h))
           = [Issued (launchCall (copyOf options h)), Settled (launchCall (copyOf options h)) t,
              Issued (New (host (copyOf options h)) (Some p)),
              Settled (New (host (copyOf options h)) (Some p)) t0]
             @ es @ [Issued (Close tab), Settled (Close tab) t1, Issued Kill, Settled Kill t2]
         \<and> generateEvents html es \<and> clientClosed tab env es"
proof -
  let ?L = "launchCall (copyOf options h)"
  let ?new = "New (host (copyOf options h)) (Some p)"
  let ?s1 = "emit (Settled ?L (snd (launch env)))
               (tick (snd (launch env)) (emit (Issued ?L) (start options h)))"
  let ?s2 = "assign (length h) (\<lambda>opts. opts\<lparr>port := Some p\<rparr>) ?s1"
  let ?s3 = "emit (Settled ?new (snd (launch env) + snd (cdpNew env)))
               (tick (snd (cdpNew env)) (emit (Issued ?new) ?s2))"
  let ?g = "snd (generate html (length h) tab env ?s3)"
  obtain es where es: "trace ?g = trace ?s3 @ es" and ok: "generateEvents html es"
    and cl: "clientClosed tab env es"
    by (rule generate_shapeE)
  have "trace (snd (create html options env h))
      = trace ?g @ [Issued (Close tab), Settled (Close tab) (clock ?g + snd (cdpClose env)),
                    Issued Kill, Settled Kill (clock ?g + snd (cdpClose env) + snd (kill env))]"
    using assms
    by (simp add: session_defs launchCall_def deref_assign split: prod.splits sum.splits)
  then show ?thesis using es ok cl by simp
qed

lemma clientClosed_prefix:
  assumes "clientClosed tab env es" and "Issued ClientClose \<notin> set front"
    and "Issued (Connect tab) \<notin> set front"
  shows "if Issued (Connect tab) \<in> set (front @ es) \<and> fst (cdp env) = Inr ()
         then \<exists>body. front @ es = body @ [Issued ClientClose] \<and> Issued ClientClose \<notin> set body
         else Issued ClientClose \<notin> set (front @ es)"
proof (cases "Issued (Connect tab) \<in> set es \<and> fst (cdp env) = Inr ()")
  case True
  then obtain body where "es = body @ [Issued ClientClose]" and "Issued ClientClose \<notin> set body"
    using assms(1) by (auto simp add: clientClosed_def)
  then have "front @ es = (front @ body) @ [Issued ClientClose]
      \<and> Issued ClientClose \<notin> set (front @ body)"
    using assms(2) by simp
  then show ?thesis using True by auto
next
  case False
  then have "Issued ClientClose \<notin> set es" using assms(1) by (auto simp add: clientClosed_def)
  then show ?thesis using False assms(2,3) by auto
qed

text \<open>
  C5. On every exit path of \<open>create\<close> on which the tab was opened, the session is
  closed exactly once: \<open>CDP.Close\<close> is called once, and when the protocol connection
  was established (\<open>CDP(...)\<close> called and fulfilled), \<open>client.close()\<close> is called once,
  right before \<open>CDP.Close\<close>, and otherwise not at all. When a process was launched,
  \<open>kill\<close> is called exactly once, after the close; when none was launched, nothing
  follows the close. When the process was launched and the tab could not be opened,
  \<open>kill\<close> is still called exactly once and nothing is closed. On no path is
  \<open>client.close()\<close> called without an established connection. This holds for every
  behaviour of the collaborators, so for every way \<open>generate\<close> ends.
\<close>

theorem create_teardown_once:
  "(fst (cdpNew env) = Inr tab
      \<and> (launches (copyOf options h) \<longrightarrow> fst (launch env) = Inr p) \<longrightarrow>
      (\<exists>pre t1 post. trace (snd (create html options env h))
            = pre @ [Issued (Close tab), Settled (Close tab) t1] @ post
         \<and> (\<forall>e\<in>set pre. \<not> calls teardownCall e)
         \<and> (if launches (copyOf options h) then \<exists>t2. post = [Issued Kill, Settled Kill t2]
            else post = [])
         \<and> (if Issued (Connect tab) \<in> set pre \<and> fst (cdp env) = Inr ()
            then \<exists>body. pre = body @ [Issued ClientClose] \<and> Issued ClientClose \<notin> set body
            else Issued ClientClose \<notin> set pre)))
   \<and> (launches (copyOf options h) \<and> fst (launch env) = Inr p \<and> fst (cdpNew env) = Inl m \<longrightarrow>
      (\<exists>pre t2. trace (snd (create html options env h)) = pre @ [Issued Kill, Settled Kill t2]
         \<and> (\<forall>e\<in>set pre. \<not> calls teardownCall e) \<and> Issued ClientClose \<notin> set pre))
   \<and> (Issued ClientClose \<in> set (trace (snd (create html options env h))) \<longrightarrow>
      (\<exists>tb. Issued (Connect tb) \<in> set (trace (snd (create html options env h))))
      \<and> fst (cdp env) = Inr ())"
proof -
  let ?t = "trace (snd (create html options env h))"
  let ?c = "copyOf options h"
  let ?L = "launchCall ?c"
  have attach: "\<exists>pre t1. ?t = pre @ [Issued (Close tab), Settled (Close tab) t1] @ []
         \<and> (\<forall>e\<in>set pre. \<not> calls teardownCall e)
         \<and> (if Issued (Connect tab) \<in> set pre \<and> fst (cdp env) = Inr ()
            then \<exists>body. pre = body @ [Issued ClientClose] \<and> Issued ClientClose \<notin> set body
            else Issued ClientClose \<notin> set pre)"
    if nl: "\<not> launches ?c" and n: "fst (cdpNew env) = Inr tab" for tab
  proof -
    obtain es t0 t1 where tr: "?t = [Issued (New (host ?c) (port ?c)), Settled (New (host ?c) (port ?c)) t0]
             @ es @ [Issued (Close tab), Settled (Close tab) t1]"
      and ok: "generateEvents html es" and cl: "clientClosed tab env es"
      using create_run_attach [OF nl n] by blast
    let ?front = "[Issued (New (host ?c) (port ?c)), Settled (New (host ?c) (port ?c)) t0]"
    have "\<forall>e\<in>set (?front @ es). \<not> calls teardownCall e"
      using generateEvents_no_teardown [OF ok]
      by (auto simp add: calls_def eventCall_def teardownCall_def)
    moreover have "?t = (?front @ es) @ [Issued (Close tab), Settled (Close tab) t1] @ []"
      using tr by simp
    moreover have "if Issued (Connect tab) \<in> set (?front @ es) \<and> fst (cdp env) = Inr ()
         then \<exists>body. ?front @ es = body @ [Issued ClientClose] \<and> Issued ClientClose \<notin> set body
         else Issued ClientClose \<notin> set (?front @ es)"
      by (rule clientClosed_prefix [OF cl]) simp_all
    ultimately show ?thesis by blast
  qed
  have launched: "\<exists>pre t1 t2. ?t = pre @ [Issued (Close tab), Settled (Close tab) t1]
              @ [Issued Kill, Settled Kill t2]
         \<and> (\<forall>e\<in>set pre. \<not> calls teardownCall e)
         \<and> (if Issued (Connect tab) \<in> set pre \<and> fst (cdp env) = Inr ()
            then \<exists>body. pre = body @ [Issued ClientClose] \<and> Issued ClientClose \<notin> set body
            else Issued ClientClose \<notin> set pre)"
    if l: "launches ?c" and lp: "fst (launch env) = Inr p" and n: "fst (cdpNew env) = Inr tab"
    for p tab
  proof -
    obtain es t t0 t1 t2 where tr: "?t = [Issued ?L, Settled ?L t,
              Issued (New (host ?c) (Some p)), Settled (New (host ?c) (Some p)) t0]
             @ es @ [Issued (Close tab), Settled (Close tab) t1, Issued Kill, Settled Kill t2]"
      and ok: "generateEvents html es" and cl: "clientClosed tab env es"
      using create_run_launch [OF l lp n] by blast
    let ?front = "[Issued ?L, Settled ?L t,
              Issued (New (host ?c) (Some p)), Settled (New (host ?c) (Some p)) t0]"
    have "\<forall>e\<in>set (?front @ es). \<not> calls teardownCall e"
      using generateEvents_no_teardown [OF ok]
      by (auto simp add: calls_def eventCall_def teardownCall_def launchCall_def)
    moreover have "?t = (?front @ es) @ [Issued (Close tab), Settled (Close tab) t1]
              @ [Issued Kill, Settled Kill t2]"
      using tr by simp
    moreover have "if Issued (Connect tab) \<in> set (?front @ es) \<and> fst (cdp env) = Inr ()
         then \<exists>body. ?front @ es = body @ [Issued ClientClose] \<and> Issued ClientClose \<notin> set body
         else Issued ClientClose \<notin> set (?front @ es)"
      by (rule clientClosed_prefix [OF cl]) (simp_all add: launchCall_def)
    ultimately show ?thesis by blast
  qed
  have newfail: "\<exists>pre t2. ?t = pre @ [Issued Kill, Settled Kill t2]
         \<and> (\<forall>e\<in>set pre. \<not> calls teardownCall e) \<and> Issued ClientClose \<notin> set pre"
    if l: "launches ?c" and lp: "fst (launch env) = Inr p" and n: "fst (cdpNew env) = Inl m"
    for p m
  proof -
    obtain t t0 t2 where tr: "?t = [Issued ?L, Settled ?L t,
              Issued (New (host ?c) (Some p)), Settled (New (host ?c) (Some p)) t0,
              Issued Kill, Settled Kill t2]"
      using create_trace_launch_new_fail [OF l lp n] by blast
    let ?pre = "[Issued ?L, Settled ?L t,
              Issued (New (host ?c) (Some p)), Settled (New (host ?c) (Some p)) t0]"
    have "\<forall>e\<in>set ?pre. \<not> calls teardownCall e"
      by (auto simp add: calls_def eventCall_def teardownCall_def launchCall_def)
    moreover have "?t = ?pre @ [Issued Kill, Settled Kill t2]" using tr by simp
    moreover have "Issued ClientClose \<notin> set ?pre" by (simp add: launchCall_def)
    ultimately show ?thesis by blast
  qed
  have p1: "fst (cdpNew env) = Inr tab \<and> (launches ?c \<longrightarrow> fst (launch env) = Inr p) \<longrightarrow>
      (\<exists>pre t1 post. ?t = pre @ [Issued (Close tab), Settled (Close tab) t1] @ post
         \<and> (\<forall>e\<in>set pre. \<not> calls teardownCall e)
         \<and> (if launches ?c then \<exists>t2. post = [Issued Kill, Settled Kill t2] else post = [])
         \<and> (if Issued (Connect tab) \<in> set pre \<and> fst (cdp env) = Inr ()
            then \<exists>body. pre = body @ [Issued ClientClose] \<and> Issued ClientClose \<notin> set body
            else Issued ClientClose \<notin> set pre))"
  proof (cases "launches ?c")
    case True
    show ?thesis
    proof (intro impI, elim conjE)
      assume n: "fst (cdpNew env) = Inr tab" and "launches ?c \<longrightarrow> fst (launch env) = Inr p"
      then have lp: "fst (launch env) = Inr p" using True by simp
      obtain pre t1 t2 where "?t = pre @ [Issued (Close tab), Settled (Close tab) t1]
              @ [Issued Kill, Settled Kill t2]"
        and "\<forall>e\<in>set pre. \<not> calls teardownCall e"
        and "if Issued (Connect tab) \<in> set pre \<and> fst (cdp env) = Inr ()
            then \<exists>body. pre = body @ [Issued ClientClose] \<and> Issued ClientClose \<notin> set body
            else Issued ClientClose \<notin> set pre"
        using launched [OF True lp n] by blast
      then show "\<exists>pre t1 post. ?t = pre @ [Issued (Close tab), Settled (Close tab) t1] @ post
         \<and> (\<forall>e\<in>set pre. \<not> calls teardownCall e)
         \<and> (if launches ?c then \<exists>t2. post = [Issued Kill, Settled Kill t2] else post = [])
         \<and> (if Issued (Connect tab) \<in> set pre \<and> fst (cdp env) = Inr ()
            then \<exists>body. pre = body @ [Issued ClientClose] \<and> Issued ClientClose \<notin> set body
            else Issued ClientClose \<notin> set pre)"
        unfolding if_P [OF True] by blast
    qed
  next
    case False
    show ?thesis
    proof (intro impI, elim conjE)
      assume n: "fst (cdpNew env) = Inr tab"
      obtain pre t1 where "?t = pre @ [Issued (Close tab), Settled (Close tab) t1] @ []"
        and "\<forall>e\<in>set pre. \<not> calls teardownCall e"
        and "if Issued (Connect tab) \<in> set pre \<and> fst (cdp env) = Inr ()
            then \<exists>body. pre = body @ [Issued ClientClose] \<and> Issued ClientClose \<notin> set body
            else Issued ClientClose \<notin> set pre"
        using attach [OF False n] by blast
      then show "\<exists>pre t1 post. ?t = pre @ [Issued (Close tab), Settled (Close tab) t1] @ post
         \<and> (\<forall>e\<in>set pre. \<not> calls teardownCall e)
         \<and> (if launches ?c then \<exists>t2. post = [Issued Kill, Settled Kill t2] else post = [])
         \<and> (if Issued (Connect tab) \<in> set pre \<and> fst (cdp env) = Inr ()
            then \<exists>body. pre = body @ [Issued ClientClose] \<and> Issued ClientClose \<notin> set body
            else Issued ClientClose \<notin> set pre)"
        unfolding if_not_P [OF False] by blast
    qed
  qed
  have p2: "launches ?c \<and> fst (launch env) = Inr p \<and> fst (cdpNew env) = Inl m \<longrightarrow>
      (\<exists>pre t2. ?t = pre @ [Issued Kill, Settled Kill t2]
         \<and> (\<forall>e\<in>set pre. \<not> calls teardownCall e) \<and> Issued ClientClose \<notin> set pre)"
    using newfail by blast
  have p3: "(\<exists>tb. Issued (Connect tb) \<in> set ?t) \<and> fst (cdp env) = Inr ()"
    if cc: "Issued ClientClose \<in> set ?t"
  proof -
    have shape: "(\<exists>tb. Issued (Connect tb) \<in> set pre) \<and> fst (cdp env) = Inr ()"
      if "Issued ClientClose \<in> set pre"
        and "if Issued (Connect tb) \<in> set pre \<and> fst (cdp env) = Inr ()
            then \<exists>body. pre = body @ [Issued ClientClose] \<and> Issued ClientClose \<notin> set body
            else Issued ClientClose \<notin> set pre" for pre tb
      using that by (auto split: if_splits)
    show ?thesis
    proof (cases "launches ?c")
      case True
      show ?thesis
      proof (cases "fst (launch env)")
        case (Inl m')
        then obtain t where "?t = [Issued ?L, Settled ?L t]"
          using create_trace_launch_fail [OF True] by blast
        then show ?thesis using cc by (simp add: launchCall_def)
      next
        case (Inr p')
        show ?thesis
        proof (cases "fst (cdpNew env)")
          case (Inl m')
          then obtain pre t2 where "?t = pre @ [Issued Kill, Settled Kill t2]"
            and "Issued ClientClose \<notin> set pre"
            using newfail [OF True Inr] by blast
          then show ?thesis using cc by simp
        next
          case new: (Inr tb)
          obtain pre t1 t2 where tr: "?t = pre @ [Issued (Close tb), Settled (Close tb) t1]
              @ [Issued Kill, Settled Kill t2]"
            and sh: "if Issued (Connect tb) \<in> set pre \<and> fst (cdp env) = Inr ()
              then \<exists>body. pre = body @ [Issued ClientClose] \<and> Issued ClientClose \<notin> set body
              else Issued ClientClose \<notin> set pre"
            using launched [OF True Inr new] by blast
          have "Issued ClientClose \<in> set pre" using cc tr by simp
          then have "(\<exists>tb. Issued (Connect tb) \<in> set pre) \<and> fst (cdp env) = Inr ()"
            using shape sh by blast
          then show ?thesis using tr by auto
        qed
      qed
    next
      case False
      show ?thesis
      proof (cases "fst (cdpNew env)")
        case (Inl m')
        then obtain t0 where "?t = [Issued (New (host ?c) (port ?c)), Settled (New (host ?c) (port ?c)) t0]"
          using create_trace_attach_fail [OF False] by blast
        then show ?thesis using cc by simp
      next
        case new: (Inr tb)
        obtain pre t1 where tr: "?t = pre @ [Issued (Close tb), Settled (Close tb) t1] @ []"
          and sh: "if Issued (Connect tb) \<in> set pre \<and> fst (cdp env) = Inr ()
              then \<exists>body. pre = body @ [Issued ClientClose] \<and> Issued ClientClose \<notin> set body
              else Issued ClientClose \<notin> set pre"
          using attach [OF False new] by blast
        have "Issued ClientClose \<in> set pre" using cc tr by simp
        then have "(\<exists>tb. Issued (Connect tb) \<in> set pre) \<and> fst (cdp env) = Inr ()"
          using shape sh by blast
        then show ?thesis using tr by auto
      qed
    qed
  qed
  show ?thesis using p1 p2 p3 by blast
qed

theorem create_teardown_once_witness:
  "fst (cdpNew fineEnv) = Inr ''tab1''
   \<and> launches (copyOf None []) \<and> fst (launch fineEnv) = Inr 9222
   \<and> fst (cdp fineEnv) = Inr ()
   \<and> Issued ClientClose \<in> set (trace (snd (create ''<h1>hi</h1>'' None fineEnv [])))
   \<and> (\<exists>body t1 t2. trace (snd (create ''<h1>hi</h1>'' None fineEnv []))
            = (body @ [Issued ClientClose]) @ [Issued (Close ''tab1''), Settled (Close ''tab1'') t1]
              @ [Issued Kill, Settled Kill t2]
         \<and> Issued (Connect ''tab1'') \<in> set body
         \<and> Issued ClientClose \<notin> set body
         \<and> (\<forall>e\<in>set body. \<not> calls teardownCall e))"
proof -
  let ?t = "trace (snd (create ''<h1>hi</h1>'' None fineEnv []))"
  have hyp: "fst (cdpNew fineEnv) = Inr ''tab1''" "launches (copyOf None [])"
    "fst (launch fineEnv) = Inr 9222" "fst (cdp fineEnv) = Inr ()"
    by (simp_all add: launches_def copyOf_def emptyOptions_def truthyString_def truthyNumber_def
          fineEnv_def)
  have con: "Issued (Connect ''tab1'') \<in> set ?t" and cc: "Issued ClientClose \<in> set ?t"
    by (simp_all add: run_defs fineEnv_def)
  obtain pre t1 post where tr: "?t = pre @ [Issued (Close ''tab1''), Settled (Close ''tab1'') t1] @ post"
    and td: "\<forall>e\<in>set pre. \<not> calls teardownCall e"
    and po: "\<exists>t2. post = [Issued Kill, Settled Kill t2]"
    and sh: "if Issued (Connect ''tab1'') \<in> set pre \<and> fst (cdp fineEnv) = Inr ()
            then \<exists>body. pre = body @ [Issued ClientClose] \<and> Issued ClientClose \<notin> set body
            else Issued ClientClose \<notin> set pre"
    using hyp create_teardown_once [where env = fineEnv and tab = "''tab1''" and options = None
        and h = "[]" and p = 9222 and html = "''<h1>hi</h1>''"]
    by (simp only: if_True) blast
  obtain t2 where post: "post = [Issued Kill, Settled Kill t2]" using po by blast
  have "Issued (Connect ''tab1'') \<in> set pre" using con tr post by simp
  then obtain body where body: "pre = body @ [Issued ClientClose]"
    and nb: "Issued ClientClose \<notin> set body"
    using sh hyp(4) by auto
  have "Issued (Connect ''tab1'') \<in> set body"
    using \<open>Issued (Connect ''tab1'') \<in> set pre\<close> body by simp
  moreover have "\<forall>e\<in>set body. \<not> calls teardownCall e" using td body by simp
  moreover have "?t = (body @ [Issued ClientClose])
      @ [Issued (Close ''tab1''), Settled (Close ''tab1'') t1] @ [Issued Kill, Settled Kill t2]"
    using tr post body by simp
  ultimately show ?thesis using hyp cc nb by blast
qed

lemma unwaited_emit: "eventCall e \<noteq> Some Wait \<Longrightarrow> unwaited s \<Longrightarrow> unwaited (emit e s)"
  by (simp add: unwaited_def)

lemma waitedLate_emit:
  "eventCall e \<noteq> Some Wait \<Longrightarrow> waitedLate env T x s \<Longrightarrow> waitedLate env T x (emit e s)"
  by (auto simp add: waitedLate_def unwaited_def eventCall_def)

lemma generate_waitedLate:
  assumes w: "fst (wait env) = Inr (Some w)" and x: "exceptionDetails w"
  shows "ends (timedUnwaited T a) (generate html a tab env) (\<lambda>pdf. unwaited) (waitedLate env T)"
proof (rule generate_ends [where ?N2.0 = "timedUnwaited T a" and ?N3.0 = "timedUnwaited T a"
        and ?N4.0 = "timedUnwaited T a"])
  show "steady (calls firstCall) (timedUnwaited T a)"
    by (rule steady_mono [OF steady_timedUnwaited])
       (auto simp add: calls_def firstCall_def beforeNavigateCall_def eventCall_def
             split: event.splits call.splits)
  have "keeps (timedUnwaited T a) (waitedLate env T)
          (awaitAll (Navigate (navigationUrl html)) (navigate env) LoadEventFired (loadEventFired env))"
    by (rule keeps_awaitAll [OF steady_timedUnwaited])
       (simp_all add: calls_def eventCall_def waitedLate_def timedUnwaited_def)
  then show "ends (timedUnwaited T a) (awaitAll (Navigate (navigationUrl html)) (navigate env)
                 LoadEventFired (loadEventFired env)) (\<lambda>u. timedUnwaited T a) (waitedLate env T)"
    by (simp add: keeps_ends)
  show "ends (timedUnwaited T a) (afterNavigate a env) (\<lambda>u. timedUnwaited T a) (waitedLate env T)"
    by (rule afterNavigate_waitedLate [OF w x])
  show "ends (timedUnwaited T a) (await (PrintToPDF po) (printToPDF env))
          (\<lambda>pdf. timedUnwaited T a) (waitedLate env T)" for po
    by (rule ends_await [OF steady_timedUnwaited])
       (simp_all add: calls_def eventCall_def waitedLate_def timedUnwaited_def)
  show "waitedLate env T e (emit (Issued ClientClose) s)" if "waitedLate env T e s" for e s
    using that by (simp add: waitedLate_emit eventCall_def)
qed (simp_all add: timedUnwaited_def waitedLate_def unwaited_emit eventCall_def)

lemma session_waitedLate:
  assumes w: "fst (wait env) = Inr (Some w)" and x: "exceptionDetails w"
  shows "ends (timedUnwaited T a) (session html a env) (\<lambda>pdf. unwaited) (waitedLate env T)"
proof (rule session_ends)
  show "steady (calls openingCall) (timedUnwaited T a)"
    by (rule steady_mono [OF steady_timedUnwaited])
       (auto simp add: calls_def openingCall_def eventCall_def split: event.splits call.splits)
  show "steady (calls teardownCall) (waitedLate env T e)" for e
    by (rule steady_mono [OF steady_waitedLate])
       (auto simp add: calls_def teardownCall_def eventCall_def split: event.splits call.splits)
  show "steady (calls teardownCall) unwaited"
    by (auto simp add: steady_def unwaited_def calls_def teardownCall_def eventCall_def
          split: event.splits call.splits)
  show "ends (timedUnwaited T a) (generate html a tab env) (\<lambda>pdf. unwaited) (waitedLate env T)"
    for tab
    by (rule generate_waitedLate [OF w x])
  show "timedUnwaited T a (assign a (\<lambda>opts. opts\<lparr>port := Some p\<rparr>) s)"
    if "timedUnwaited T a s" for s p
    using that by (simp add: timedUnwaited_def timed_port unwaited_def)
qed (auto simp add: timedUnwaited_def waitedLate_def unwaited_def eventCall_def)

text \<open>
  C10, as amended. When the timer has fired by the time the completion trigger's \<open>wait\<close>
  returns an outcome with \<open>exceptionDetails\<close> (the wait settles later than the timeout),
  \<open>create\<close> does not reject with the evaluation error: it rejects with the timeout
  error, or, when closing the tab or killing the process fails, with the error of that
  teardown step.
\<close>

theorem create_timeout_before_evaluation:
  assumes "timeout (copyOf options h) = Some T" and "0 \<le> T"
    and "fst (wait env) = Inr (Some w)" and "exceptionDetails w"
    and "Settled Wait t \<in> set (trace (snd (create html options env h)))" and "T < int t"
  shows "(fst (create html options env h) = Inl Timeout
          \<or> (\<exists>c m. fst (create html options env h) = Inl (External c m) \<and> teardownFails env c m))
       \<and> fst (create html options env h) \<noteq> Inl (Evaluation (resultValue w))"
proof -
  have "timedUnwaited T (length h) (start options h)"
    using timed_start [OF assms(1,2)] by (simp add: timedUnwaited_def unwaited_def)
  then have "case fst (create html options env h) of
           Inl e \<Rightarrow> waitedLate env T e (snd (create html options env h))
         | Inr v \<Rightarrow> unwaited (snd (create html options env h))"
    using ends_create [OF session_waitedLate [OF assms(3,4)]] by blast
  moreover have "eventCall (Settled Wait t) = Some Wait" by (simp add: eventCall_def)
  then have "\<not> unwaited (snd (create html options env h))"
    using assms(5) unfolding unwaited_def by blast
  ultimately have "fst (create html options env h) = Inl Timeout
          \<or> (\<exists>c m. fst (create html options env h) = Inl (External c m) \<and> teardownFails env c m)"
    using assms(5,6) by (auto simp add: waitedLate_def split: sum.splits)
  then show ?thesis by auto
qed

theorem create_timeout_before_evaluation_witness:
  "timeout (copyOf (Some 0) [lateTrigger]) = Some 8 \<and> (0::int) \<le> 8
   \<and> fst (wait triggerEnv) = Inr (Some \<lparr>exceptionDetails = True, resultValue = ''boom''\<rparr>)
   \<and> exceptionDetails \<lparr>exceptionDetails = True, resultValue = ''boom''\<rparr>
   \<and> Settled Wait 11 \<in> set (trace (snd (create ''<h1>hi</h1>'' (Some 0) triggerEnv [lateTrigger])))
   \<and> (8::int) < int 11
   \<and> fst (create ''<h1>hi</h1>'' (Some 0) triggerEnv [lateTrigger]) = Inl Timeout"
proof -
  have t: "timeout (copyOf (Some 0) [lateTrigger]) = Some 8"
    by (simp add: copyOf_def deref_def lateTrigger_def remoteWithTrigger_def emptyOptions_def)
  have w: "fst (wait triggerEnv) = Inr (Some \<lparr>exceptionDetails = True, resultValue = ''boom''\<rparr>)"
    by (simp add: triggerEnv_def)
  have x: "exceptionDetails \<lparr>exceptionDetails = True, resultValue = ''boom''\<rparr>" by simp
  have run: "Settled Wait 11 \<in> set (trace (snd (create ''<h1>hi</h1>'' (Some 0) triggerEnv [lateTrigger])))"
    by (simp add: run_defs triggerEnv_def fineEnv_def lateTrigger_def remoteWithTrigger_def)
  have res: "fst (create ''<h1>hi</h1>'' (Some 0) triggerEnv [lateTrigger]) = Inl Timeout"
    by (simp add: run_defs triggerEnv_def fineEnv_def lateTrigger_def remoteWithTrigger_def)
  have "(0::int) \<le> 8" and lt: "(8::int) < int 11" by simp_all
  then show ?thesis
    using t w x run res create_timeout_before_evaluation [OF t _ w x run lt] by simp
qed

text \<open>
  C10 as stated fails when a teardown step fails: the timer (8 ms) fires while \<open>wait\<close>
  is pending, \<open>wait\<close> returns its failed evaluation at 11 ms and the guard throws the
  timeout error, but \<open>CDP.Close\<close> then rejects in the \<open>finally\<close> block, and \<open>create\<close>
  rejects with the error of the close, not with the timeout error.
\<close>

theorem create_timeout_before_evaluation_counterexample:
  "fst (wait triggerCloseFails) = Inr (Some \<lparr>exceptionDetails = True, resultValue = ''boom''\<rparr>)
   \<and> Settled Wait 11
        \<in> set (trace (snd (create ''<h1>hi</h1>'' (Some 0) triggerCloseFails [lateTrigger])))
   \<and> GuardFailed
        \<in> set (trace (snd (create ''<h1>hi</h1>'' (Some 0) triggerCloseFails [lateTrigger])))
   \<and> canceled (heap (snd (create ''<h1>hi</h1>'' (Some 0) triggerCloseFails [lateTrigger])) ! 1)
        = Some True
   \<and> fst (create ''<h1>hi</h1>'' (Some 0) triggerCloseFails [lateTrigger])
        = Inl (External (Close ''tab1'') ''close failed'')"
  by (simp add: run_defs triggerCloseFails_def triggerEnv_def fineEnv_def lateTrigger_def
        remoteWithTrigger_def)




lemma onTime_tick [simp]: "onTime T (tick d s) = onTime T s"
  by (simp add: onTime_def)





















end
